theory Spec2Isabelle
  imports Main
begin

section \<open>Entity extraction for scheduling text\<close>

text \<open>
  A shallow embedding of \<^verbatim>\<open>entity_extraction_chatbot.py\<close>: the methods
  \<^verbatim>\<open>parse_date\<close> and \<^verbatim>\<open>extract_entities\<close> of class
  \<^verbatim>\<open>AdvancedEntityExtractor\<close>, together with the parts of Python's
  \<^verbatim>\<open>re\<close> and \<^verbatim>\<open>datetime\<close> modules they call.

  Conventions of the embedding.
  \<^item> A Python \<^verbatim>\<open>str\<close> is a \<open>string\<close>; every \<open>char\<close> stands for one code point
    below 256, the Latin-1 range of Unicode, which contains ASCII. On this range the
    character classes and the case mapping below are those of Python's Unicode patterns
    and of \<^verbatim>\<open>str.lower()\<close>. Text with a code point from 256 on is not a value of
    the type and nothing is stated about it.
  \<^item> The two external collaborators are parameters: the process clock
    (\<^verbatim>\<open>datetime.now()\<close>) and the named-entity recogniser (\<^verbatim>\<open>self.nlp\<close>).
  \<^item> An exception is a value \<open>Inl e\<close> of a sum type.
  \<^item> Logging is not modelled: it does not change what is returned.
\<close>

datatype py_error = OverflowError | KeyError | NlpError

subsection \<open>Characters\<close>

definition code :: "char \<Rightarrow> nat" where
  "code c = of_char c"

text \<open>
  \<^verbatim>\<open>[A-Z]\<close>, \<^verbatim>\<open>[a-z]\<close>, \<^verbatim>\<open>\d\<close>, \<^verbatim>\<open>\s\<close> and \<^verbatim>\<open>\w\<close>. The two ranges
  and \<^verbatim>\<open>\d\<close> hold ASCII characters only. \<^verbatim>\<open>\s\<close> also matches the separators
  28 to 31, the next-line character 133 and the no-break space 160. \<^verbatim>\<open>\w\<close> also
  matches the letters and numbers of Latin-1: 170, 178, 179, 181, 185, 186, 188 to 190,
  192 to 214, 216 to 246 and 248 to 255.
\<close>

definition is_upper :: "char \<Rightarrow> bool" where
  "is_upper c = (65 \<le> code c \<and> code c \<le> 90)"

definition is_lower :: "char \<Rightarrow> bool" where
  "is_lower c = (97 \<le> code c \<and> code c \<le> 122)"

definition is_digit :: "char \<Rightarrow> bool" where
  "is_digit c = (48 \<le> code c \<and> code c \<le> 57)"

definition is_space :: "char \<Rightarrow> bool" where
  "is_space c = ((9 \<le> code c \<and> code c \<le> 13) \<or> (28 \<le> code c \<and> code c \<le> 32) \<or>
                 code c = 133 \<or> code c = 160)"

definition is_word :: "char \<Rightarrow> bool" where
  "is_word c = (is_upper c \<or> is_lower c \<or> is_digit c \<or> code c = 95 \<or>
                code c = 170 \<or> code c = 178 \<or> code c = 179 \<or> code c = 181 \<or>
                code c = 185 \<or> code c = 186 \<or> (188 \<le> code c \<and> code c \<le> 190) \<or>
                (192 \<le> code c \<and> code c \<le> 214) \<or> (216 \<le> code c \<and> code c \<le> 246) \<or>
                248 \<le> code c)"

text \<open>
  \<^verbatim>\<open>str.lower()\<close>, one character at a time. The characters that it changes are
  \<^verbatim>\<open>A\<close> to \<^verbatim>\<open>Z\<close> and the capital letters 192 to 214 and 216 to 222 of
  Latin-1; each moves up by 32.
\<close>

definition has_lower :: "char \<Rightarrow> bool" where
  "has_lower c = (is_upper c \<or> (192 \<le> code c \<and> code c \<le> 214) \<or>
                  (216 \<le> code c \<and> code c \<le> 222))"

definition lower_char :: "char \<Rightarrow> char" where
  "lower_char c = (if has_lower c then char_of (code c + 32) else c)"

definition lower :: "string \<Rightarrow> string" where
  "lower s = map lower_char s"

subsection \<open>Regular expressions with Python's backtracking order\<close>

datatype cclass = Digit | Space | Word | Upper | Lower

fun in_class :: "cclass \<Rightarrow> char \<Rightarrow> bool" where
  "in_class Digit c = is_digit c"
| "in_class Space c = is_space c"
| "in_class Word c = is_word c"
| "in_class Upper c = is_upper c"
| "in_class Lower c = is_lower c"

text \<open>
  The fragment of the pattern language that the program uses. \<open>Rep k lo hi\<close> is a greedy
  repetition of one character class (\<^verbatim>\<open>\d{1,2}\<close>, \<^verbatim>\<open>\d+\<close>, \<^verbatim>\<open>\s*\<close>),
  \<open>Opt\<close> is a greedy \<^verbatim>\<open>(?:...)?\<close>, \<open>Group i\<close> is the capturing group with
  index \<open>i\<close> (counted from 0), \<open>WordB\<close> is \<^verbatim>\<open>\b\<close> and \<open>NotAhead\<close> is
  \<^verbatim>\<open>(?!...)\<close>.
\<close>

datatype regex =
    Lit string
  | Cls cclass
  | Rep cclass nat "nat option"
  | Seq regex regex
  | Alt regex regex
  | Opt regex
  | Group nat regex
  | WordB
  | NotAhead regex

type_synonym caps = "(nat \<times> nat) option list"

type_synonym mstate = "nat \<times> caps"

text \<open>
  A literal at position \<open>p\<close>. With \<^verbatim>\<open>re.IGNORECASE\<close> the characters are compared
  in lower case: the literals of the program are ASCII, and below 256 a character matches
  an ASCII letter without regard to case exactly when their lower cases are equal.
\<close>

definition lit_at :: "bool \<Rightarrow> string \<Rightarrow> string \<Rightarrow> nat \<Rightarrow> bool" where
  "lit_at ic s t p =
     (let w = take (length s) (drop p t)
      in if ic then lower w = lower s else w = s)"

definition word_at :: "string \<Rightarrow> nat \<Rightarrow> bool" where
  "word_at t p = (p < length t \<and> is_word (t ! p))"

definition word_before :: "string \<Rightarrow> nat \<Rightarrow> bool" where
  "word_before t p = (0 < p \<and> p \<le> length t \<and> is_word (t ! (p - 1)))"

definition run_length :: "cclass \<Rightarrow> string \<Rightarrow> nat" where
  "run_length k s = length (takeWhile (in_class k) s)"

text \<open>
  \<open>ends ic t r (p, c)\<close> lists every way in which \<open>r\<close> can match the text \<open>t\<close> from
  position \<open>p\<close>, as end position and captures, in the order in which the backtracking
  matcher tries them: the left alternative first, the longest repetition first. The
  match that Python reports is the head of the list.
\<close>

fun ends :: "bool \<Rightarrow> string \<Rightarrow> regex \<Rightarrow> mstate \<Rightarrow> mstate list" where
  "ends ic t (Lit s) (p, c) = (if lit_at ic s t p then [(p + length s, c)] else [])"
| "ends ic t (Cls k) (p, c) =
     (if p < length t \<and> in_class k (t ! p) then [(p + 1, c)] else [])"
| "ends ic t (Rep k lo hi) (p, c) =
     (let n = run_length k (drop p t);
          m = (case hi of None \<Rightarrow> n | Some h \<Rightarrow> min n h)
      in map (\<lambda>j. (p + j, c)) (rev [lo..<Suc m]))"
| "ends ic t (Seq r s) st = concat (map (ends ic t s) (ends ic t r st))"
| "ends ic t (Alt r s) st = ends ic t r st @ ends ic t s st"
| "ends ic t (Opt r) st = ends ic t r st @ [st]"
| "ends ic t (Group i r) (p, c) =
     map (\<lambda>(e, c'). (e, c'[i := Some (p, e)])) (ends ic t r (p, c))"
| "ends ic t WordB (p, c) = (if word_before t p \<noteq> word_at t p then [(p, c)] else [])"
| "ends ic t (NotAhead r) st = (if ends ic t r st = [] then [st] else [])"

text \<open>One attempt of the matcher at position \<open>p\<close>, for a pattern with \<open>ng\<close> groups.\<close>

definition match_at :: "bool \<Rightarrow> regex \<Rightarrow> nat \<Rightarrow> string \<Rightarrow> nat \<Rightarrow> mstate option" where
  "match_at ic r ng t p =
     (case ends ic t r (p, replicate ng None) of [] \<Rightarrow> None | m # _ \<Rightarrow> Some m)"

text \<open>\<^verbatim>\<open>re.match\<close>: anchored at the start of the text.\<close>

definition re_match :: "bool \<Rightarrow> regex \<Rightarrow> nat \<Rightarrow> string \<Rightarrow> mstate option" where
  "re_match ic r ng t = match_at ic r ng t 0"

text \<open>\<^verbatim>\<open>re.search\<close>: the first position, from the left, at which the pattern matches.\<close>

definition re_search :: "bool \<Rightarrow> regex \<Rightarrow> nat \<Rightarrow> string \<Rightarrow> (nat \<times> mstate) option" where
  "re_search ic r ng t =
     (case List.find (\<lambda>p. match_at ic r ng t p \<noteq> None) [0..<Suc (length t)] of
        None \<Rightarrow> None
      | Some p \<Rightarrow> map_option (\<lambda>m. (p, m)) (match_at ic r ng t p))"

text \<open>
  The scan of \<^verbatim>\<open>findall\<close>: the non-overlapping matches from left to right, each as
  start, end and captures. After a match the scan goes on at its end (one character
  further after an empty match).
\<close>

function scan :: "bool \<Rightarrow> regex \<Rightarrow> nat \<Rightarrow> string \<Rightarrow> nat \<Rightarrow> (nat \<times> mstate) list" where
  "scan ic r ng t p =
     (if length t < p then []
      else case match_at ic r ng t p of
             None \<Rightarrow> scan ic r ng t (Suc p)
           | Some (e, c) \<Rightarrow> (p, e, c) # scan ic r ng t (if p < e then e else Suc p))"
  by pat_completeness auto
termination
  by (relation "measure (\<lambda>(ic, r, ng, t, p). Suc (length t) - p)") auto

declare scan.simps [simp del]

definition substr :: "string \<Rightarrow> nat \<Rightarrow> nat \<Rightarrow> string" where
  "substr t s e = take (e - s) (drop s t)"

text \<open>\<^verbatim>\<open>m.group(i+1)\<close> as \<^verbatim>\<open>findall\<close> reports it: the empty string when the group took no part.\<close>

definition group_text :: "string \<Rightarrow> caps \<Rightarrow> nat \<Rightarrow> string" where
  "group_text t c i =
     (if i < length c then (case c ! i of None \<Rightarrow> [] | Some (s, e) \<Rightarrow> substr t s e) else [])"

text \<open>\<^verbatim>\<open>findall\<close> for a pattern without groups: the matched substrings.\<close>

definition findall :: "bool \<Rightarrow> regex \<Rightarrow> string \<Rightarrow> string list" where
  "findall ic r t = map (\<lambda>(s, e, c). substr t s e) (scan ic r 0 t 0)"

text \<open>\<^verbatim>\<open>findall\<close> for a pattern with \<open>ng > 1\<close> groups: one tuple of group texts per match.\<close>

definition findall_groups :: "bool \<Rightarrow> regex \<Rightarrow> nat \<Rightarrow> string \<Rightarrow> string list list" where
  "findall_groups ic r ng t =
     map (\<lambda>(s, e, c). map (group_text t c) [0..<ng]) (scan ic r ng t 0)"

subsection \<open>Dates of the \<^verbatim>\<open>datetime\<close> module\<close>

text \<open>
  A \<^verbatim>\<open>datetime\<close> is represented by its proleptic Gregorian ordinal
  (\<^verbatim>\<open>toordinal()\<close>, day 1 is 0001-01-01). The time of day is left out: adding a
  \<^verbatim>\<open>timedelta(days=n)\<close> does not change it and \<^verbatim>\<open>strftime("%Y-%m-%d")\<close> does
  not print it.
\<close>

definition MAXORDINAL :: int where
  "MAXORDINAL = 3652059"

text \<open>\<^verbatim>\<open>today + timedelta(days=d)\<close>; a result outside 0001-01-01 .. 9999-12-31 raises.\<close>

definition date_add :: "int \<Rightarrow> int \<Rightarrow> py_error + int" where
  "date_add n d = (if 0 < n + d \<and> n + d \<le> MAXORDINAL then Inr (n + d) else Inl OverflowError)"

text \<open>\<^verbatim>\<open>weekday()\<close>: Monday is 0, Sunday is 6.\<close>

definition weekday :: "int \<Rightarrow> int" where
  "weekday n = (n + 6) mod 7"

definition DAYS_BEFORE_MONTH :: "int list" where
  "DAYS_BEFORE_MONTH = [-1, 0, 31, 59, 90, 120, 151, 181, 212, 243, 273, 304, 334]"

definition DAYS_IN_MONTH :: "int list" where
  "DAYS_IN_MONTH = [-1, 31, 28, 31, 30, 31, 30, 31, 31, 30, 31, 30, 31]"

text \<open>
  The conversion of an ordinal to year, month and day that \<^verbatim>\<open>datetime\<close> uses. The
  month estimate \<open>(n + 50) div 32\<close> lies between 1 and 12, so both tables are read in
  range.
\<close>

definition ord2ymd :: "int \<Rightarrow> int \<times> int \<times> int" where
  "ord2ymd n0 =
     (let n = n0 - 1;
          n400 = n div 146097; n = n mod 146097;
          n100 = n div 36524; n = n mod 36524;
          n4 = n div 1461; n = n mod 1461;
          n1 = n div 365; n = n mod 365;
          year = n400 * 400 + 1 + n100 * 100 + n4 * 4 + n1
      in if n1 = 4 \<or> n100 = 4 then (year - 1, 12, 31)
         else
           let leapyear = (n1 = 3 \<and> (n4 \<noteq> 24 \<or> n100 = 3));
               month = (n + 50) div 32;
               preceding = DAYS_BEFORE_MONTH ! nat month + (if 2 < month \<and> leapyear then 1 else 0)
           in if n < preceding
              then (year, month - 1,
                    n - (preceding - (DAYS_IN_MONTH ! nat (month - 1)
                                      + (if month - 1 = 2 \<and> leapyear then 1 else 0))) + 1)
              else (year, month, n - preceding + 1))"

definition digit_char :: "int \<Rightarrow> char" where
  "digit_char d = char_of (48 + nat d)"

definition dec2 :: "int \<Rightarrow> string" where
  "dec2 n = [digit_char (n div 10 mod 10), digit_char (n mod 10)]"

definition dec4 :: "int \<Rightarrow> string" where
  "dec4 n = [digit_char (n div 1000 mod 10), digit_char (n div 100 mod 10),
             digit_char (n div 10 mod 10), digit_char (n mod 10)]"

text \<open>\<^verbatim>\<open>strftime("%Y-%m-%d")\<close>: the year on four digits, month and day on two.\<close>

definition strftime_ymd :: "int \<Rightarrow> string" where
  "strftime_ymd n = (case ord2ymd n of (y, m, d) \<Rightarrow> dec4 y @ ''-'' @ dec2 m @ ''-'' @ dec2 d)"

subsection \<open>\<^verbatim>\<open>parse_date\<close>\<close>

text \<open>\<^verbatim>\<open>r'next\s+(monday|tuesday|wednesday|thursday|friday|saturday|sunday)'\<close>\<close>

definition next_day_regex :: regex where
  "next_day_regex =
     Seq (Lit ''next'') (Seq (Rep Space 1 None)
       (Group 0 (Alt (Lit ''monday'') (Alt (Lit ''tuesday'') (Alt (Lit ''wednesday'')
                (Alt (Lit ''thursday'') (Alt (Lit ''friday'') (Alt (Lit ''saturday'')
                (Lit ''sunday'')))))))))"

definition days :: "string \<rightharpoonup> int" where
  "days = map_of [(''monday'', 0), (''tuesday'', 1), (''wednesday'', 2), (''thursday'', 3),
                  (''friday'', 4), (''saturday'', 5), (''sunday'', 6)]"

text \<open>
  The body of the \<^verbatim>\<open>try\<close> block. \<open>now\<close> is the ordinal of \<^verbatim>\<open>datetime.now()\<close>.
  The dictionary \<^verbatim>\<open>date_mapping\<close> is built before anything else, so both
  neighbours of today are computed on every call.
\<close>

definition parse_date_body :: "int \<Rightarrow> string \<Rightarrow> py_error + string" where
  "parse_date_body now date_str =
     (let today = now in
      (case date_add today 1 of
         Inl x \<Rightarrow> Inl x
       | Inr tomorrow \<Rightarrow>
      (case date_add today (- 1) of
         Inl x \<Rightarrow> Inl x
       | Inr yesterday \<Rightarrow>
      (let date_mapping = map_of [(''today'', today), (''tomorrow'', tomorrow),
                                  (''yesterday'', yesterday)]
       in (case re_match False next_day_regex 1 (lower date_str) of
             Some (e, c) \<Rightarrow>
               (let target_day = group_text (lower date_str) c 0
                in (case days target_day of
                      None \<Rightarrow> Inl KeyError
                    | Some d \<Rightarrow>
                        (let days_ahead = d - weekday today + 7
                         in (case date_add today days_ahead of
                               Inl x \<Rightarrow> Inl x
                             | Inr dt \<Rightarrow> Inr (strftime_ymd dt)))))
           | None \<Rightarrow>
               (case date_mapping (lower date_str) of
                  Some dt \<Rightarrow> Inr (strftime_ymd dt)
                | None \<Rightarrow> Inr date_str))))))"

text \<open>The \<^verbatim>\<open>except Exception\<close> handler returns the argument.\<close>

definition parse_date :: "int \<Rightarrow> string \<Rightarrow> string" where
  "parse_date now date_str =
     (case parse_date_body now date_str of Inl x \<Rightarrow> date_str | Inr r \<Rightarrow> r)"

subsection \<open>\<^verbatim>\<open>extract_entities\<close>\<close>

definition weekday_names :: regex where
  "weekday_names =
     Alt (Lit ''Monday'') (Alt (Lit ''Tuesday'') (Alt (Lit ''Wednesday'')
    (Alt (Lit ''Thursday'') (Alt (Lit ''Friday'') (Alt (Lit ''Saturday'') (Lit ''Sunday''))))))"

text \<open>
  \<^verbatim>\<open>\b(?:today|tomorrow|yesterday)\b\<close> joined by \<^verbatim>\<open>|\<close> with
  \<^verbatim>\<open>\bnext\s+(?:Monday|...|Sunday)\b\<close>.
\<close>

definition date_regex :: regex where
  "date_regex =
     Alt (Seq WordB (Seq (Alt (Lit ''today'') (Alt (Lit ''tomorrow'') (Lit ''yesterday''))) WordB))
         (Seq WordB (Seq (Lit ''next'') (Seq (Rep Space 1 None) (Seq weekday_names WordB))))"

definition am_pm :: regex where
  "am_pm = Alt (Lit ''am'') (Lit ''pm'')"

text \<open>
  \<^verbatim>\<open>\b\d{1,2}(?::\d{2})?\s*(?:am|pm)\b\<close> joined by \<^verbatim>\<open>|\<close> with
  \<^verbatim>\<open>\b\d{1,2}\s*(?:am|pm)\b\<close>.
\<close>

definition time_regex :: regex where
  "time_regex =
     Alt (Seq WordB (Seq (Rep Digit 1 (Some 2))
            (Seq (Opt (Seq (Lit '':'') (Rep Digit 2 (Some 2))))
              (Seq (Rep Space 0 None) (Seq am_pm WordB)))))
         (Seq WordB (Seq (Rep Digit 1 (Some 2)) (Seq (Rep Space 0 None) (Seq am_pm WordB))))"

definition minute_units :: regex where
  "minute_units = Alt (Lit ''minute'') (Alt (Lit ''min'') (Lit ''mins''))"

definition hour_units :: regex where
  "hour_units = Alt (Lit ''hour'') (Alt (Lit ''hr'') (Lit ''hours''))"

text \<open>The six duration patterns, joined by \<^verbatim>\<open>|\<close> in the order of the list.\<close>

definition full_duration_pattern :: regex where
  "full_duration_pattern =
     Alt (Seq WordB (Seq (Group 0 (Rep Digit 1 None))
            (Seq (Rep Space 0 None) (Seq minute_units WordB))))
    (Alt (Seq WordB (Seq (Group 1 (Rep Digit 1 None))
            (Seq (Rep Space 0 None) (Seq hour_units WordB))))
    (Alt (Seq WordB (Seq (Lit ''for'') (Seq (Rep Space 1 None) (Seq (Group 2 (Rep Digit 1 None))
            (Seq (Rep Space 0 None) (Seq minute_units WordB))))))
    (Alt (Seq WordB (Seq (Lit ''for'') (Seq (Rep Space 1 None) (Seq (Group 3 (Rep Digit 1 None))
            (Seq (Rep Space 0 None) (Seq hour_units WordB))))))
    (Alt (Seq WordB (Seq (Group 4 (Rep Digit 1 None))
            (Seq (Alt (Lit ''m'') (Lit ''min'')) WordB)))
         (Seq WordB (Seq (Group 5 (Rep Digit 1 None))
            (Seq (Alt (Lit ''h'') (Lit ''hr'')) WordB)))))))"

text \<open>\<^verbatim>\<open>(?:minute|min|mins|m)(?!\w)\<close> and \<^verbatim>\<open>(?:hour|hr|hours|h)(?!\w)\<close>.\<close>

definition minute_check :: regex where
  "minute_check =
     Seq (Alt (Lit ''minute'') (Alt (Lit ''min'') (Alt (Lit ''mins'') (Lit ''m''))))
         (NotAhead (Cls Word))"

definition hour_check :: regex where
  "hour_check =
     Seq (Alt (Lit ''hour'') (Alt (Lit ''hr'') (Alt (Lit ''hours'') (Lit ''h''))))
         (NotAhead (Cls Word))"

text \<open>\<^verbatim>\<open>\b[A-Z][a-z]+ (?:[A-Z][a-z]+)?\b\<close>\<close>

definition name_pattern :: regex where
  "name_pattern =
     Seq WordB (Seq (Cls Upper) (Seq (Rep Lower 1 None) (Seq (Lit '' '')
       (Seq (Opt (Seq (Cls Upper) (Rep Lower 1 None))) WordB))))"

text \<open>\<^verbatim>\<open>next((m for m in match if m), None)\<close>: the first non-empty group, if any.\<close>

definition first_nonempty :: "string list \<Rightarrow> string option" where
  "first_nonempty ms = List.find (\<lambda>m. m \<noteq> []) ms"

text \<open>How an f-string prints the number: \<^verbatim>\<open>None\<close> prints as its name.\<close>

definition show_number :: "string option \<Rightarrow> string" where
  "show_number n = (case n of None \<Rightarrow> ''None'' | Some s \<Rightarrow> s)"

text \<open>
  The loop over \<^verbatim>\<open>duration_matches\<close>. Both unit checks search the whole text; a
  match for which neither succeeds adds nothing.
\<close>

fun process_durations :: "string \<Rightarrow> string list list \<Rightarrow> string list" where
  "process_durations text [] = []"
| "process_durations text (match # rest) =
     (let number = first_nonempty match
      in if re_search True minute_check 0 text \<noteq> None
         then (show_number number @ '' mins'') # process_durations text rest
         else if re_search True hour_check 0 text \<noteq> None
         then (show_number number @ '' hours'') # process_durations text rest
         else process_durations text rest)"

text \<open>
  \<^verbatim>\<open>list(dict.fromkeys(xs))\<close>: the keys of a dictionary in the order of their first
  insertion; inserting a key again leaves its place.
\<close>

definition dict_fromkeys :: "'a list \<Rightarrow> 'a list" where
  "dict_fromkeys xs = fold (\<lambda>k keys. if k \<in> set keys then keys else keys @ [k]) xs []"

text \<open>
  \<open>nlp\<close> is the recogniser: for a text, the entities \<^verbatim>\<open>doc.ents\<close> as pairs of
  \<^verbatim>\<open>ent.text\<close> and \<^verbatim>\<open>ent.label_\<close>, or an exception. An exception in the body is
  logged and raised again.
\<close>

definition extract_entities ::
  "(string \<Rightarrow> py_error + (string \<times> string) list) \<Rightarrow> int \<Rightarrow> string
     \<Rightarrow> py_error + (string \<rightharpoonup> string list)" where
  "extract_entities nlp now text =
     (let entities = [''DATE'' \<mapsto> [], ''TIME'' \<mapsto> [], ''DURATION'' \<mapsto> [], ''ATTENDEE'' \<mapsto> []]
      in case nlp text of
           Inl x \<Rightarrow> Inl x
         | Inr ents \<Rightarrow>
             (let date_matches = findall True date_regex text;
                  entities = entities(''DATE'' \<mapsto> map (parse_date now) date_matches);
                  entities = entities(''TIME'' \<mapsto> findall True time_regex text);
                  duration_matches = findall_groups True full_duration_pattern 6 text;
                  processed_durations = process_durations text duration_matches;
                  entities = entities(''DURATION'' \<mapsto> processed_durations);
                  attendees = map fst (filter (\<lambda>ent. snd ent = ''PERSON'') ents);
                  attendees = (if attendees = [] then findall False name_pattern text
                               else attendees);
                  entities = entities(''ATTENDEE'' \<mapsto> dict_fromkeys attendees)
              in Inr entities))"

section \<open>Specification-level definitions\<close>

text \<open>
  What a pattern denotes, without the order of the attempts and without the captures:
  \<open>den ic t r p e\<close> holds when \<open>r\<close> can match the text \<open>t\<close> from position \<open>p\<close> to
  position \<open>e\<close>. It is used in proofs only; \<open>ends_den\<close> below relates it to
  \<open>ends\<close>.
\<close>

fun den :: "bool \<Rightarrow> string \<Rightarrow> regex \<Rightarrow> nat \<Rightarrow> nat \<Rightarrow> bool" where
  "den ic t (Lit s) p e = (lit_at ic s t p \<and> e = p + length s)"
| "den ic t (Cls k) p e = (p < length t \<and> in_class k (t ! p) \<and> e = p + 1)"
| "den ic t (Rep k lo hi) p e =
     (\<exists>j. e = p + j \<and> lo \<le> j \<and> j \<le> run_length k (drop p t) \<and>
          (case hi of None \<Rightarrow> True | Some h \<Rightarrow> j \<le> h))"
| "den ic t (Seq r s) p e = (\<exists>m. den ic t r p m \<and> den ic t s m e)"
| "den ic t (Alt r s) p e = (den ic t r p e \<or> den ic t s p e)"
| "den ic t (Opt r) p e = (den ic t r p e \<or> e = p)"
| "den ic t (Group i r) p e = den ic t r p e"
| "den ic t WordB p e = (e = p \<and> word_before t p \<noteq> word_at t p)"
| "den ic t (NotAhead r) p e = (e = p \<and> (\<forall>e'. \<not> den ic t r p e'))"

text \<open>
  The shape of the capturing groups of the duration patterns, for the proof that the
  number of a duration match is a string of digits: \<open>digit_groups n r\<close> holds when
  every group of \<open>r\<close> has an index below \<open>n\<close> and captures a non-empty run of
  digits, \<open>sets_group r\<close> when every match of \<open>r\<close> goes through a group, and
  \<open>good_cap t\<close> when a capture is unset or a non-empty span of digits of \<open>t\<close>.
\<close>

fun is_digit_run :: "regex \<Rightarrow> bool" where
  "is_digit_run (Rep Digit lo hi) = (0 < lo)"
| "is_digit_run r = False"

fun digit_groups :: "nat \<Rightarrow> regex \<Rightarrow> bool" where
  "digit_groups n (Group i r) = (i < n \<and> is_digit_run r)"
| "digit_groups n (Seq r s) = (digit_groups n r \<and> digit_groups n s)"
| "digit_groups n (Alt r s) = (digit_groups n r \<and> digit_groups n s)"
| "digit_groups n (Opt r) = digit_groups n r"
| "digit_groups n r = True"

fun sets_group :: "regex \<Rightarrow> bool" where
  "sets_group (Group i r) = True"
| "sets_group (Seq r s) = (sets_group r \<or> sets_group s)"
| "sets_group (Alt r s) = (sets_group r \<and> sets_group s)"
| "sets_group r = False"

fun good_cap :: "string \<Rightarrow> (nat \<times> nat) option \<Rightarrow> bool" where
  "good_cap t None = True"
| "good_cap t (Some (p, q)) = (p < q \<and> q \<le> length t \<and> list_all is_digit (substr t p q))"

text \<open>The shape \<^verbatim>\<open>YYYY-MM-DD\<close>: ten characters, digits around two hyphens.\<close>

definition is_iso_date :: "string \<Rightarrow> bool" where
  "is_iso_date s = (length s = 10 \<and> list_all is_digit (take 4 s) \<and> s ! 4 = CHR ''-'' \<and>
     list_all is_digit (take 2 (drop 5 s)) \<and> s ! 7 = CHR ''-'' \<and> list_all is_digit (drop 8 s))"

text \<open>
  The offset of \<^verbatim>\<open>next <weekday>\<close> as the specification words it:
  \<^verbatim>\<open>(target_weekday_index - current_weekday_index + 7) mod 7\<close>, and 7 when that
  is 0.
\<close>

definition spec_days_ahead :: "int \<Rightarrow> int \<Rightarrow> int" where
  "spec_days_ahead target current =
     (let r = (target - current + 7) mod 7 in if r = 0 then 7 else r)"

section \<open>Properties of the matcher, of the dates and of the helpers\<close>

subsection \<open>Characters and case\<close>

lemma code_char_of: "n < 256 \<Longrightarrow> code (char_of n) = n"
  by (simp add: code_def)

lemma code_lower_char: "code (lower_char c) = (if has_lower c then code c + 32 else code c)"
  by (simp add: lower_char_def has_lower_def is_upper_def code_def)

lemma is_word_lower_char: "is_word (lower_char c) = is_word c"
proof (cases "has_lower c")
  case True
  then consider (a) "is_upper c" | (b) "192 \<le> code c \<and> code c \<le> 214"
    | (c) "216 \<le> code c \<and> code c \<le> 222"
    unfolding has_lower_def by blast
  then have "is_word (lower_char c) \<and> is_word c"
  proof cases
    case a
    then have "is_lower (lower_char c)"
      using True by (simp add: is_lower_def is_upper_def code_lower_char)
    with a show ?thesis by (simp add: is_word_def)
  next
    case b
    then have "216 \<le> code (lower_char c) \<and> code (lower_char c) \<le> 246"
      using True by (simp add: code_lower_char)
    with b show ?thesis by (simp add: is_word_def)
  next
    case c
    then have "248 \<le> code (lower_char c)"
      using True by (simp add: code_lower_char)
    with c show ?thesis by (simp add: is_word_def)
  qed
  then show ?thesis by simp
next
  case False
  then show ?thesis by (simp add: lower_char_def)
qed

lemma lower_char_idem: "lower_char (lower_char c) = lower_char c"
proof (cases "has_lower c")
  case True
  then have "\<not> has_lower (lower_char c)"
    by (auto simp: has_lower_def is_upper_def code_lower_char)
  then show ?thesis by (simp add: lower_char_def)
next
  case False
  then show ?thesis by (simp add: lower_char_def)
qed

lemma lower_idem: "lower (lower s) = lower s"
  by (simp add: lower_def lower_char_idem)

lemma length_lower: "length (lower s) = length s"
  by (simp add: lower_def)

subsection \<open>The matcher finds what the pattern denotes\<close>

lemma ends_den: "(\<exists>c'. (e, c') \<in> set (ends ic t r (p, c))) = den ic t r p e"
proof (induction r arbitrary: p e c)
  case (Lit s) then show ?case by auto
next
  case (Cls k) then show ?case by auto
next
  case (Rep k lo hi)
  define m where "m = (case hi of None \<Rightarrow> run_length k (drop p t)
                       | Some h \<Rightarrow> min (run_length k (drop p t)) h)"
  have E: "ends ic t (Rep k lo hi) (p, c) = map (\<lambda>j. (p + j, c)) (rev [lo..<Suc m])"
    by (simp add: m_def Let_def)
  have M: "(j \<le> m) = (j \<le> run_length k (drop p t) \<and> (case hi of None \<Rightarrow> True | Some h \<Rightarrow> j \<le> h))" for j
    by (cases hi) (auto simp: m_def)
  have "(\<exists>c'. (e, c') \<in> set (ends ic t (Rep k lo hi) (p, c))) = (\<exists>j. e = p + j \<and> lo \<le> j \<and> j \<le> m)"
    unfolding E by (force simp: less_Suc_eq_le)
  then show ?case by (simp add: M)
next
  case (Seq r s)
  have "(\<exists>c'. (e, c') \<in> set (ends ic t (Seq r s) (p, c))) =
        (\<exists>m c''. (m, c'') \<in> set (ends ic t r (p, c)) \<and> (\<exists>c'. (e, c') \<in> set (ends ic t s (m, c''))))"
    by auto
  also have "\<dots> = (\<exists>m c''. (m, c'') \<in> set (ends ic t r (p, c)) \<and> den ic t s m e)"
    using Seq.IH(2) by simp
  also have "\<dots> = (\<exists>m. den ic t r p m \<and> den ic t s m e)"
    using Seq.IH(1)[of _ p c] by blast
  finally show ?case by simp
next
  case (Alt r s)
  then show ?case by (simp add: ex_disj_distrib) 
next
  case (Opt r)
  then show ?case by (auto simp: ex_disj_distrib)
next
  case (Group i r)
  have "(\<exists>c'. (e, c') \<in> set (ends ic t (Group i r) (p, c))) =
        (\<exists>c'. (e, c') \<in> set (ends ic t r (p, c)))"
  proof -
    have "fst ` set (ends ic t (Group i r) (p, c)) = fst ` set (ends ic t r (p, c))"
      by (simp add: image_image case_prod_beta)
    moreover have "(\<exists>c'. (e, c') \<in> S) = (e \<in> fst ` S)" for S :: "mstate set"
      by force
    ultimately show ?thesis by simp
  qed
  then show ?case using Group.IH by simp
next
  case WordB then show ?case by auto
next
  case (NotAhead r)
  have "(ends ic t r (p, c) \<noteq> []) = (\<exists>e c'. (e, c') \<in> set (ends ic t r (p, c)))"
    by (cases "ends ic t r (p, c)") auto
  also have "\<dots> = (\<exists>e. den ic t r p e)"
    using NotAhead.IH[of _ p c] by simp
  finally have "(ends ic t r (p, c) = []) = (\<forall>e'. \<not> den ic t r p e')"
    by blast
  then show ?case by auto
qed

lemma match_at_den: "(match_at ic r ng t p \<noteq> None) = (\<exists>e. den ic t r p e)"
proof -
  have "(match_at ic r ng t p \<noteq> None) = (ends ic t r (p, replicate ng None) \<noteq> [])"
    by (simp add: match_at_def split: list.splits)
  also have "\<dots> = (\<exists>e c'. (e, c') \<in> set (ends ic t r (p, replicate ng None)))"
    by (cases "ends ic t r (p, replicate ng None)") auto
  finally show ?thesis using ends_den by simp
qed

lemma match_at_Some_den: "match_at ic r ng t p = Some (e, c) \<Longrightarrow> den ic t r p e"
proof -
  assume "match_at ic r ng t p = Some (e, c)"
  then have "(e, c) \<in> set (ends ic t r (p, replicate ng None))"
    by (auto simp: match_at_def split: list.splits)
  then show ?thesis using ends_den by blast
qed

lemma den_bounds: "den ic t r p e \<Longrightarrow> p \<le> length t \<Longrightarrow> p \<le> e \<and> e \<le> length t"
proof (induction r arbitrary: p e)
  case (Lit s)
  then have "length (take (length s) (drop p t)) = length s"
    by (auto simp: lit_at_def Let_def lower_def split: if_splits dest: arg_cong[where f=length])
  then show ?case using Lit by auto
next
  case (Rep k lo hi)
  have "run_length k (drop p t) \<le> length t - p"
    unfolding run_length_def by (metis length_drop length_takeWhile_le)
  then show ?case using Rep by auto
next
  case (Seq r s) then show ?case by fastforce
qed auto

lemma re_search_den:
  "(re_search ic r ng t \<noteq> None) = (\<exists>p\<le>length t. \<exists>e. den ic t r p e)"
proof -
  have "(re_search ic r ng t \<noteq> None) =
        (List.find (\<lambda>p. match_at ic r ng t p \<noteq> None) [0..<Suc (length t)] \<noteq> None)"
  proof (cases "List.find (\<lambda>p. match_at ic r ng t p \<noteq> None) [0..<Suc (length t)]")
    case None
    then show ?thesis by (simp add: re_search_def)
  next
    case (Some q)
    then have "match_at ic r ng t q \<noteq> None" by (auto simp: find_Some_iff)
    with Some show ?thesis by (auto simp: re_search_def)
  qed
  also have "\<dots> = (\<exists>p\<le>length t. match_at ic r ng t p \<noteq> None)"
    unfolding find_None_iff by (metis atLeastLessThan_iff less_Suc_eq_le set_upt zero_le)
  finally show ?thesis by (simp only: match_at_den)
qed

subsection \<open>The scan of \<^verbatim>\<open>findall\<close>\<close>

lemma scan_sound:
  "(s, e, c) \<in> set (scan ic r ng t p) \<Longrightarrow> p \<le> s \<and> s \<le> length t \<and> match_at ic r ng t s = Some (e, c)"
proof (induction ic r ng t p rule: scan.induct)
  case (1 ic r ng t p)
  show ?case
  proof (cases "length t < p")
    case True
    with "1.prems" show ?thesis by (simp add: scan.simps)
  next
    case False
    show ?thesis
    proof (cases "match_at ic r ng t p")
      case None
      with False "1.prems" have "(s, e, c) \<in> set (scan ic r ng t (Suc p))"
        by (simp add: scan.simps[of ic r ng t p])
      with "1.IH"(1)[OF False None] show ?thesis by simp
    next
      case (Some m)
      obtain e0 c0 where m: "m = (e0, c0)" by (cases m)
      from False Some m "1.prems"
      have "(s, e, c) = (p, e0, c0) \<or> (s, e, c) \<in> set (scan ic r ng t (if p < e0 then e0 else Suc p))"
        by (simp add: scan.simps[of ic r ng t p])
      then show ?thesis
      proof
        assume "(s, e, c) = (p, e0, c0)"
        with Some m False show ?thesis by simp
      next
        assume "(s, e, c) \<in> set (scan ic r ng t (if p < e0 then e0 else Suc p))"
        with "1.IH"(2)[OF False Some m[symmetric]] show ?thesis by (auto split: if_splits)
      qed
    qed
  qed
qed

lemma scan_sorted:
  "sorted_wrt (\<lambda>a b. fst a < fst b \<and> fst (snd a) \<le> fst b) (scan ic r ng t p)"
proof (induction ic r ng t p rule: scan.induct)
  case (1 ic r ng t p)
  show ?case
  proof (cases "length t < p")
    case True
    then show ?thesis by (simp add: scan.simps)
  next
    case False
    show ?thesis
    proof (cases "match_at ic r ng t p")
      case None
      with False "1.IH"(1)[OF False None] show ?thesis
        by (simp add: scan.simps[of ic r ng t p])
    next
      case (Some m)
      obtain e0 c0 where m: "m = (e0, c0)" by (cases m)
      let ?q = "if p < e0 then e0 else Suc p"
      have S: "scan ic r ng t p = (p, e0, c0) # scan ic r ng t ?q"
        using False Some m by (simp add: scan.simps[of ic r ng t p])
      have "\<forall>y\<in>set (scan ic r ng t ?q). p < fst y \<and> e0 \<le> fst y"
      proof
        fix y assume y: "y \<in> set (scan ic r ng t ?q)"
        obtain s e c where "y = (s, e, c)" by (cases y)
        with y scan_sound[of s e c ic r ng t ?q] show "p < fst y \<and> e0 \<le> fst y"
          by (auto split: if_splits)
      qed
      with "1.IH"(2)[OF False Some m[symmetric]] show ?thesis
        unfolding S by simp
    qed
  qed
qed

subsection \<open>\<^verbatim>\<open>dict.fromkeys\<close>\<close>

lemma dict_fromkeys_snoc:
  "dict_fromkeys (xs @ [x]) =
     (if x \<in> set (dict_fromkeys xs) then dict_fromkeys xs else dict_fromkeys xs @ [x])"
  by (simp add: dict_fromkeys_def)

lemma dict_fromkeys_Nil: "dict_fromkeys [] = []"
  by (simp add: dict_fromkeys_def)

lemma set_dict_fromkeys: "set (dict_fromkeys xs) = set xs"
  by (induction xs rule: rev_induct) (auto simp: dict_fromkeys_snoc dict_fromkeys_Nil)

lemma distinct_dict_fromkeys: "distinct (dict_fromkeys xs)"
  by (induction xs rule: rev_induct) (auto simp: dict_fromkeys_snoc dict_fromkeys_Nil)

lemma dict_fromkeys_first:
  "dict_fromkeys xs = map (\<lambda>i. xs ! i) (filter (\<lambda>i. xs ! i \<notin> set (take i xs)) [0..<length xs])"
proof (induction xs rule: rev_induct)
  case Nil
  show ?case by (simp add: dict_fromkeys_Nil)
next
  case (snoc x xs)
  have F: "filter (\<lambda>i. (xs @ [x]) ! i \<notin> set (take i (xs @ [x]))) [0..<length xs] =
           filter (\<lambda>i. xs ! i \<notin> set (take i xs)) [0..<length xs]"
    by (rule filter_cong) (auto simp: nth_append)
  have M: "map (\<lambda>i. (xs @ [x]) ! i) (filter (\<lambda>i. xs ! i \<notin> set (take i xs)) [0..<length xs]) =
           map (\<lambda>i. xs ! i) (filter (\<lambda>i. xs ! i \<notin> set (take i xs)) [0..<length xs])"
    by (rule map_cong) (auto simp: nth_append)
  have S: "set xs = set (map (\<lambda>i. xs ! i) (filter (\<lambda>i. xs ! i \<notin> set (take i xs)) [0..<length xs]))"
    using snoc.IH set_dict_fromkeys[of xs] by simp
  have U: "[0..<length (xs @ [x])] = [0..<length xs] @ [length xs]" by simp
  have L: "map (\<lambda>i. (xs @ [x]) ! i) (filter (\<lambda>i. (xs @ [x]) ! i \<notin> set (take i (xs @ [x]))) [length xs])
           = (if x \<in> set xs then [] else [x])"
    by simp
  have "map (\<lambda>i. (xs @ [x]) ! i)
          (filter (\<lambda>i. (xs @ [x]) ! i \<notin> set (take i (xs @ [x]))) [0..<length (xs @ [x])])
        = dict_fromkeys xs @ (if x \<in> set xs then [] else [x])"
    unfolding U filter_append map_append F M L snoc.IH[symmetric] ..
  then show ?case
    by (simp add: dict_fromkeys_snoc set_dict_fromkeys)
qed

subsection \<open>Substrings\<close>

lemma substr_append:
  "s \<le> m \<Longrightarrow> m \<le> e \<Longrightarrow> substr t s e = substr t s m @ substr t m e"
proof -
  assume a: "s \<le> m" "m \<le> e"
  obtain i j where ij: "m = s + i" "e = s + i + j" using a by (metis le_Suc_ex)
  show ?thesis unfolding substr_def ij by (simp add: take_add add.commute)
qed

lemma substr_in_text:
  "s \<le> e \<Longrightarrow> e \<le> length t \<Longrightarrow> t = take s t @ substr t s e @ drop e t"
proof -
  assume a: "s \<le> e" "e \<le> length t"
  obtain j where j: "e = s + j" using a by (metis le_Suc_ex)
  have "take j (drop s t) @ drop (j + s) t = drop s t"
    by (metis append_take_drop_id drop_drop)
  then have "t = take s t @ take j (drop s t) @ drop (s + j) t"
    by (metis append_take_drop_id add.commute)
  then show ?thesis by (simp add: substr_def j)
qed

lemma run_substr:
  "j \<le> run_length k (drop p t) \<Longrightarrow>
     length (substr t p (p + j)) = j \<and> list_all (in_class k) (substr t p (p + j))"
proof -
  assume a: "j \<le> run_length k (drop p t)"
  have L: "run_length k (drop p t) \<le> length (drop p t)"
    unfolding run_length_def by (rule length_takeWhile_le)
  have "take j (drop p t) = take j (takeWhile (in_class k) (drop p t))"
    using a unfolding run_length_def
    by (metis takeWhile_dropWhile_id take_append take_all_iff diff_is_0_eq take_0 append_Nil2 order_refl take_take min.absorb1)
  moreover have "list_all (in_class k) (take j (takeWhile (in_class k) (drop p t)))"
    unfolding list_all_iff by (meson in_set_takeD set_takeWhileD)
  ultimately show ?thesis using a L by (simp add: substr_def run_length_def)
qed

lemma lit_substr:
  "lit_at True w t p \<Longrightarrow> lower (substr t p (p + length w)) = lower w"
  by (simp add: lit_at_def substr_def)

lemma lit_word_before:
  assumes "lit_at True w t p" "w \<noteq> []" "is_word (last w)"
  shows "word_before t (p + length w)"
proof -
  let ?u = "take (length w) (drop p t)"
  have L: "lower ?u = lower w" using assms(1) by (simp add: lit_at_def)
  then have len: "length ?u = length w" by (metis length_lower)
  then have b: "p + length w \<le> length t"
    using assms(2) by (cases "p \<le> length t") (auto simp: min_def split: if_splits)
  have "?u \<noteq> []" using len assms(2) by auto
  have "lower_char (last ?u) = lower_char (last w)"
    using L assms(2) \<open>?u \<noteq> []\<close> unfolding lower_def by (metis last_map)
  then have "is_word (last ?u)" using assms(3) by (metis is_word_lower_char)
  moreover have "p + (length w - 1) = p + length w - 1"
    using assms(2) by (cases w) auto
  then have "last ?u = t ! (p + length w - 1)"
    using len b assms(2) \<open>?u \<noteq> []\<close>
    by (simp add: last_conv_nth nth_append min_def)
  ultimately show ?thesis using assms(2) b by (simp add: word_before_def)
qed

subsection \<open>Dates: the fields that \<^verbatim>\<open>strftime\<close> prints are in range\<close>

text \<open>
  For every ordinal of a \<^verbatim>\<open>datetime\<close> the year lies between 1 and 9999, the
  month between 1 and 12 and the day between 1 and 31, so four digits for the year and
  two for month and day print them in full.
\<close>

lemma md_range:
  fixes r mo :: int and leap :: bool
  assumes "0 \<le> r" "r \<le> 364" "32 * mo \<le> r + 50" "r + 50 < 32 * mo + 32"
  defines "pre \<equiv> DAYS_BEFORE_MONTH ! nat mo + (if 2 < mo \<and> leap then 1 else 0)"
  defines "pre' \<equiv> pre - (DAYS_IN_MONTH ! nat (mo - 1) + (if mo - 1 = 2 \<and> leap then 1 else 0))"
  shows "(if r < pre then 1 \<le> mo - 1 \<and> mo - 1 \<le> 12 \<and> 1 \<le> r - pre' + 1 \<and> r - pre' + 1 \<le> 31
          else 1 \<le> mo \<and> mo \<le> 12 \<and> 1 \<le> r - pre + 1 \<and> r - pre + 1 \<le> 31)"
proof -
  have B: "1 \<le> mo" "mo \<le> 12" using assms(1-4) by arith+
  have C3: "lo \<le> x \<Longrightarrow> x \<le> lo + 2 \<Longrightarrow> x = lo \<or> x = lo + 1 \<or> x = lo + 2" for lo x :: int
    by arith
  have "mo \<le> 3 \<or> (4 \<le> mo \<and> mo \<le> 6) \<or> (7 \<le> mo \<and> mo \<le> 9) \<or> 10 \<le> mo" by arith
  with B C3[of 1 mo] C3[of 4 mo] C3[of 7 mo] C3[of 10 mo]
  have "mo = 1 \<or> mo = 2 \<or> mo = 3 \<or> mo = 4 \<or> mo = 5 \<or> mo = 6 \<or> mo = 7 \<or> mo = 8 \<or> mo = 9
        \<or> mo = 10 \<or> mo = 11 \<or> mo = 12"
    by auto
  then show ?thesis
    using assms(1-4) unfolding pre'_def pre_def DAYS_BEFORE_MONTH_def DAYS_IN_MONTH_def
    by (elim disjE; simp; arith?)
qed

lemma year_range:
  fixes a b c d r :: int
  assumes "0 \<le> a" "0 \<le> b" "b \<le> 4" "0 \<le> c" "c \<le> 24" "0 \<le> d" "d \<le> 4" "0 \<le> r"
    and "146097 * a + 36524 * b + 1461 * c + 365 * d + r \<le> 3652058"
  shows "400 * a + 1 + 100 * b + 4 * c + d \<le> 10000 \<and>
         (d \<noteq> 4 \<and> b \<noteq> 4 \<longrightarrow> 400 * a + 1 + 100 * b + 4 * c + d \<le> 9999)"
proof (cases "a \<le> 23")
  case True
  then show ?thesis using assms by arith
next
  case False
  then have a: "a = 24" using assms by arith
  show ?thesis
  proof (cases "b \<le> 2")
    case True
    then show ?thesis using assms a by arith
  next
    case False
    then have b: "b = 3" using assms a by arith
    show ?thesis
    proof (cases "c \<le> 23")
      case True
      then show ?thesis using assms a b by arith
    next
      case False
      then have c: "c = 24" using assms by arith
      then show ?thesis using assms a b by arith
    qed
  qed
qed

lemma ord2ymd_range:
  assumes "1 \<le> n" "n \<le> MAXORDINAL"
  shows "case ord2ymd n of (y, m, d) \<Rightarrow> 1 \<le> y \<and> y \<le> 9999 \<and> 1 \<le> m \<and> m \<le> 12 \<and> 1 \<le> d \<and> d \<le> 31"
proof -
  define a where "a = (n - 1) div 146097"
  define r1 where "r1 = (n - 1) mod 146097"
  define b where "b = r1 div 36524"
  define r2 where "r2 = r1 mod 36524"
  define c where "c = r2 div 1461"
  define r3 where "r3 = r2 mod 1461"
  define d where "d = r3 div 365"
  define r4 where "r4 = r3 mod 365"
  define Y where "Y = a * 400 + 1 + b * 100 + c * 4 + d"
  define leap where "leap = (d = 3 \<and> (c \<noteq> 24 \<or> b = 3))"
  define mo where "mo = (r4 + 50) div 32"
  have n: "n - 1 = 146097 * a + r1" "0 \<le> r1" "r1 < 146097" "0 \<le> a"
    using assms unfolding a_def r1_def by auto
  have r1: "r1 = 36524 * b + r2" "0 \<le> r2" "r2 < 36524" "0 \<le> b" "b \<le> 4"
    using n unfolding b_def r2_def by auto
  have r2: "r2 = 1461 * c + r3" "0 \<le> r3" "r3 < 1461" "0 \<le> c" "c \<le> 24"
    using r1 unfolding c_def r3_def by auto
  have r3: "r3 = 365 * d + r4" "0 \<le> r4" "r4 < 365" "0 \<le> d" "d \<le> 4"
    using r2 unfolding d_def r4_def by auto
  have tot: "146097 * a + 36524 * b + 1461 * c + 365 * d + r4 \<le> 3652058"
    using n r1 r2 r3 assms by (simp add: MAXORDINAL_def)
  have Y: "Y \<le> 10000" "d \<noteq> 4 \<and> b \<noteq> 4 \<longrightarrow> Y \<le> 9999"
    using year_range[OF n(4) r1(4,5) r2(4,5) r3(4,5) r3(2) tot] unfolding Y_def by (auto simp: algebra_simps)
  have Y1: "1 \<le> Y" using n r1 r2 r3 unfolding Y_def by simp
  have Y2: "d = 4 \<or> b = 4 \<Longrightarrow> 2 \<le> Y" using n r1 r2 r3 unfolding Y_def by arith
  have mo: "32 * mo \<le> r4 + 50" "r4 + 50 < 32 * mo + 32" unfolding mo_def by arith+
  have E: "ord2ymd n =
     (if d = 4 \<or> b = 4 then (Y - 1, 12, 31)
      else let preceding = DAYS_BEFORE_MONTH ! nat mo + (if 2 < mo \<and> leap then 1 else 0)
           in if r4 < preceding
              then (Y, mo - 1,
                    r4 - (preceding - (DAYS_IN_MONTH ! nat (mo - 1)
                                      + (if mo - 1 = 2 \<and> leap then 1 else 0))) + 1)
              else (Y, mo, r4 - preceding + 1))"
    unfolding ord2ymd_def Let_def a_def r1_def b_def r2_def c_def r3_def d_def r4_def Y_def leap_def mo_def
    by simp
  show ?thesis
  proof (cases "d = 4 \<or> b = 4")
    case True
    then show ?thesis using Y Y2 E by auto
  next
    case False
    have "r4 \<le> 364" using r3 by simp
    from md_range[OF r3(2) this mo, of leap] False Y Y1 show ?thesis
      unfolding E Let_def by (auto split: if_splits)
  qed
qed

lemma is_digit_digit_char: "is_digit (digit_char (x mod 10))"
proof -
  have "0 \<le> x mod 10" "x mod 10 < 10" by auto
  then have "nat (x mod 10) < 10" by simp
  then show ?thesis by (simp add: is_digit_def digit_char_def code_def)
qed

lemma strftime_ymd_shape: "is_iso_date (strftime_ymd n)"
  by (simp add: strftime_ymd_def is_iso_date_def dec4_def dec2_def is_digit_digit_char split: prod.splits)

subsection \<open>The time and duration patterns\<close>

lemma lower_lits:
  "lower ''am'' = ''am''" "lower ''pm'' = ''pm''" "lower '':'' = '':''"
  "lower ''minute'' = ''minute''" "lower ''min'' = ''min''" "lower ''mins'' = ''mins''"
  "lower ''m'' = ''m''" "lower ''hour'' = ''hour''" "lower ''hr'' = ''hr''"
  "lower ''hours'' = ''hours''" "lower ''h'' = ''h''"
  by (simp_all add: lower_def lower_char_def has_lower_def is_upper_def code_def)

lemma in_class_eq:
  "in_class Digit = is_digit" "in_class Space = is_space" "in_class Word = is_word"
  by (rule ext, simp)+

lemma lit_at_bound: "lit_at ic w t p \<Longrightarrow> w \<noteq> [] \<Longrightarrow> p + length w \<le> length t"
proof -
  assume a: "lit_at ic w t p" "w \<noteq> []"
  have "length (take (length w) (drop p t)) = length w"
    using a(1) by (cases ic) (auto simp: lit_at_def dest: arg_cong[where f=length] simp: length_lower)
  then show ?thesis
    using a(2) by (cases "p \<le> length t") (auto simp: min_def split: if_splits)
qed

lemma lower_char_colon: "lower_char c = CHR '':'' \<Longrightarrow> c = CHR '':''"
proof (cases "has_lower c")
  case True
  assume "lower_char c = CHR '':''"
  then have "code (lower_char c) = code (CHR '':'')" by simp
  then have "code c + 32 = code (CHR '':'')" using True by (simp add: code_lower_char)
  then have "code c + 32 = 58" by (simp add: code_def)
  with True show ?thesis by (auto simp: has_lower_def is_upper_def)
next
  case False
  assume "lower_char c = CHR '':''"
  then show ?thesis using False by (simp add: lower_char_def)
qed

lemma den_digits12:
  assumes "den True t (Rep Digit 1 (Some 2)) s m"
  shows "s \<le> m \<and> (length (substr t s m) = 1 \<or> length (substr t s m) = 2) \<and>
         list_all is_digit (substr t s m)"
proof -
  from assms obtain j where j: "m = s + j" "1 \<le> j" "j \<le> run_length Digit (drop s t)" "j \<le> 2"
    by auto
  from run_substr[OF j(3)] j show ?thesis by (auto simp: in_class_eq)
qed

lemma den_spaces:
  assumes "den True t (Rep Space 0 None) s m"
  shows "s \<le> m \<and> list_all is_space (substr t s m)"
proof -
  from assms obtain j where j: "m = s + j" "j \<le> run_length Space (drop s t)"
    by auto
  from run_substr[OF j(2)] j show ?thesis by (auto simp: in_class_eq)
qed

lemma den_am_pm:
  assumes "den True t am_pm s m"
  shows "s \<le> m \<and> (lower (substr t s m) = ''am'' \<or> lower (substr t s m) = ''pm'')"
proof -
  from assms have "(lit_at True ''am'' t s \<or> lit_at True ''pm'' t s) \<and> m = s + 2"
    by (auto simp: am_pm_def)
  then show ?thesis
    using lit_substr[of "''am''" t s] lit_substr[of "''pm''" t s] by (auto simp: lower_lits)
qed

lemma den_colon:
  assumes "den True t (Seq (Lit '':'') (Rep Digit 2 (Some 2))) s m"
  shows "s \<le> m \<and> (\<exists>a b. substr t s m = [CHR '':'', a, b] \<and> is_digit a \<and> is_digit b)"
proof -
  from assms have L: "lit_at True '':'' t s" and R: "2 \<le> run_length Digit (drop (s + 1) t)"
    and m: "m = s + 1 + 2"
    by auto
  have "lower (substr t s (s + 1)) = '':''"
    using lit_substr[OF L] by (simp add: lower_lits)
  then obtain c where c: "substr t s (s + 1) = [c]" "lower_char c = CHR '':''"
    by (cases "substr t s (s + 1)") (auto simp: lower_def)
  then have c': "substr t s (s + 1) = '':''" using lower_char_colon by simp
  from run_substr[OF R] obtain a b where ab: "substr t (s + 1) (s + 1 + 2) = [a, b]"
    "is_digit a" "is_digit b"
    by (cases "substr t (s + 1) (s + 1 + 2)"; cases "tl (substr t (s + 1) (s + 1 + 2))")
       (auto simp: in_class_eq)
  have "substr t s m = substr t s (s + 1) @ substr t (s + 1) (s + 1 + 2)"
    unfolding m by (rule substr_append) auto
  with c' ab m show ?thesis by auto
qed

lemma time_den_shape:
  assumes D: "den True t time_regex s e"
  shows "s \<le> e \<and> (\<exists>h mm ws mer. substr t s e = h @ mm @ ws @ mer \<and>
           (length h = 1 \<or> length h = 2) \<and> list_all is_digit h \<and>
           (mm = [] \<or> (\<exists>a b. mm = [CHR '':'', a, b] \<and> is_digit a \<and> is_digit b)) \<and>
           list_all is_space ws \<and> (lower mer = ''am'' \<or> lower mer = ''pm''))"
proof -
  obtain m1 m2 m3 where
    h: "den True t (Rep Digit 1 (Some 2)) s m1" and
    c: "den True t (Seq (Lit '':'') (Rep Digit 2 (Some 2))) m1 m2 \<or> m2 = m1" and
    w: "den True t (Rep Space 0 None) m2 m3" and
    a: "den True t am_pm m3 e"
    using D unfolding time_regex_def by (simp only: den.simps(4,5,6,8)) blast
  note H = den_digits12[OF h] and W = den_spaces[OF w] and A = den_am_pm[OF a]
  have C: "m1 \<le> m2 \<and> (substr t m1 m2 = [] \<or>
             (\<exists>a b. substr t m1 m2 = [CHR '':'', a, b] \<and> is_digit a \<and> is_digit b))"
    using c den_colon[of t m1 m2] by (auto simp: substr_def)
  have le: "s \<le> m1" "m1 \<le> m2" "m2 \<le> m3" "m3 \<le> e"
    using H C W A by simp_all
  have "substr t s e = substr t s m1 @ substr t m1 e"
    using le by (intro substr_append) simp_all
  also have "substr t m1 e = substr t m1 m2 @ substr t m2 e"
    using le by (intro substr_append) simp_all
  also have "substr t m2 e = substr t m2 m3 @ substr t m3 e"
    using le by (intro substr_append) simp_all
  finally have S: "substr t s e = substr t s m1 @ substr t m1 m2 @ substr t m2 m3 @ substr t m3 e" .
  have P: "substr t s e = substr t s m1 @ substr t m1 m2 @ substr t m2 m3 @ substr t m3 e \<and>
           (length (substr t s m1) = 1 \<or> length (substr t s m1) = 2) \<and>
           list_all is_digit (substr t s m1) \<and>
           (substr t m1 m2 = [] \<or>
             (\<exists>a b. substr t m1 m2 = [CHR '':'', a, b] \<and> is_digit a \<and> is_digit b)) \<and>
           list_all is_space (substr t m2 m3) \<and>
           (lower (substr t m3 e) = ''am'' \<or> lower (substr t m3 e) = ''pm'')"
    using S H C W A by blast
  have "s \<le> e" using le by simp
  moreover have "\<exists>h mm ws mer. substr t s e = h @ mm @ ws @ mer \<and>
           (length h = 1 \<or> length h = 2) \<and> list_all is_digit h \<and>
           (mm = [] \<or> (\<exists>a b. mm = [CHR '':'', a, b] \<and> is_digit a \<and> is_digit b)) \<and>
           list_all is_space ws \<and> (lower mer = ''am'' \<or> lower mer = ''pm'')"
    by (rule exI[of _ "substr t s m1"], rule exI[of _ "substr t m1 m2"],
        rule exI[of _ "substr t m2 m3"], rule exI[of _ "substr t m3 e"], rule P)
  ultimately show ?thesis by (rule conjI)
qed

lemma findall_member:
  assumes "x \<in> set (findall ic r t)"
  shows "\<exists>s e. s \<le> e \<and> e \<le> length t \<and> x = substr t s e \<and> den ic t r s e"
proof -
  from assms obtain s e c where m: "(s, e, c) \<in> set (scan ic r 0 t 0)" and x: "x = substr t s e"
    by (auto simp: findall_def)
  from scan_sound[OF m] have s: "s \<le> length t" and "match_at ic r 0 t s = Some (e, c)" by auto
  then have d: "den ic t r s e" by (auto dest: match_at_Some_den)
  from den_bounds[OF d s] x d show ?thesis by blast
qed

lemma process_durations_eq:
  "process_durations text ms =
     (if re_search True minute_check 0 text \<noteq> None
      then map (\<lambda>g. show_number (first_nonempty g) @ '' mins'') ms
      else if re_search True hour_check 0 text \<noteq> None
      then map (\<lambda>g. show_number (first_nonempty g) @ '' hours'') ms
      else [])"
  by (induction ms) (auto simp: Let_def)

lemma lit_at_mid: "lit_at True (lower w) (pre @ w @ post) (length pre)"
  by (simp add: lit_at_def lower_idem length_lower)

lemma not_ahead_word:
  "\<not> word_at t p \<Longrightarrow> den True t (NotAhead (Cls Word)) p p"
  by (auto simp: word_at_def)

lemma minute_check_found:
  assumes "text = pre @ w @ post"
    and "lower w = ''minute'' \<or> lower w = ''min'' \<or> lower w = ''mins'' \<or> lower w = ''m''"
    and "post = [] \<or> \<not> is_word (hd post)"
  shows "re_search True minute_check 0 text \<noteq> None"
proof -
  have L: "lit_at True (lower w) text (length pre)"
    unfolding assms(1) by (rule lit_at_mid)
  have len: "length (lower w) = length w" by (rule length_lower)
  have "\<not> word_at text (length pre + length w)"
    using assms(3) unfolding assms(1) word_at_def by (cases post) (auto simp: nth_append)
  then have N: "den True text (NotAhead (Cls Word)) (length pre + length (lower w))
                  (length pre + length (lower w))"
    unfolding len by (rule not_ahead_word)
  have "den True text minute_check (length pre) (length pre + length (lower w))"
    unfolding minute_check_def using assms(2) L N
    by (simp only: den.simps(1,4,5)) metis
  moreover have "length pre \<le> length text" unfolding assms(1) by simp
  ultimately show ?thesis unfolding re_search_den by blast
qed

lemma word_boundary_after_lit:
  assumes "lit_at True w t p" "w \<noteq> []" "is_word (last w)" "den True t WordB (p + length w) e"
  shows "p \<le> length t \<and> den True t (NotAhead (Cls Word)) (p + length w) (p + length w)"
proof -
  have "word_before t (p + length w)" using assms(1-3) by (rule lit_word_before)
  with assms(4) have "\<not> word_at t (p + length w)" by simp
  then have "den True t (NotAhead (Cls Word)) (p + length w) (p + length w)"
    by (rule not_ahead_word)
  with lit_at_bound[OF assms(1,2)] show ?thesis by simp
qed

lemma is_word_letters:
  "is_word CHR ''e''" "is_word CHR ''n''" "is_word CHR ''s''" "is_word CHR ''m''"
  "is_word CHR ''r''" "is_word CHR ''h''"
  by (simp_all add: is_word_def is_lower_def code_def)

lemma minute_unit_check:
  assumes "den True t minute_units p m \<or> den True t (Alt (Lit ''m'') (Lit ''min'')) p m"
    and "den True t WordB m e"
  shows "re_search True minute_check 0 t \<noteq> None"
proof -
  from assms(1) obtain w where w: "lit_at True w t p" "m = p + length w"
    "w = ''minute'' \<or> w = ''min'' \<or> w = ''mins'' \<or> w = ''m''"
    unfolding minute_units_def by (simp only: den.simps(1,5)) metis
  then have "w \<noteq> []" "is_word (last w)" by (auto simp: is_word_letters)
  from word_boundary_after_lit[OF w(1) this] assms(2) w(2)
  have b: "p \<le> length t" and
    N: "den True t (NotAhead (Cls Word)) (p + length w) (p + length w)" by auto
  have "den True t minute_check p (p + length w)"
    unfolding minute_check_def using w(1,3) N
    by (simp only: den.simps(1,4,5)) metis
  with b show ?thesis unfolding re_search_den by blast
qed

lemma hour_unit_check:
  assumes "den True t hour_units p m \<or> den True t (Alt (Lit ''h'') (Lit ''hr'')) p m"
    and "den True t WordB m e"
  shows "re_search True hour_check 0 t \<noteq> None"
proof -
  from assms(1) obtain w where w: "lit_at True w t p" "m = p + length w"
    "w = ''hour'' \<or> w = ''hr'' \<or> w = ''hours'' \<or> w = ''h''"
    unfolding hour_units_def by (simp only: den.simps(1,5)) metis
  then have "w \<noteq> []" "is_word (last w)" by (auto simp: is_word_letters)
  from word_boundary_after_lit[OF w(1) this] assms(2) w(2)
  have b: "p \<le> length t" and
    N: "den True t (NotAhead (Cls Word)) (p + length w) (p + length w)" by auto
  have "den True t hour_check p (p + length w)"
    unfolding hour_check_def using w(1,3) N
    by (simp only: den.simps(1,4,5)) metis
  with b show ?thesis unfolding re_search_den by blast
qed

lemma duration_den_unit:
  assumes "den True t full_duration_pattern s e"
  shows "re_search True minute_check 0 t \<noteq> None \<or> re_search True hour_check 0 t \<noteq> None"
proof -
  from assms have
    "(\<exists>p m. (den True t minute_units p m \<or> den True t (Alt (Lit ''m'') (Lit ''min'')) p m)
             \<and> den True t WordB m e) \<or>
     (\<exists>p m. (den True t hour_units p m \<or> den True t (Alt (Lit ''h'') (Lit ''hr'')) p m)
             \<and> den True t WordB m e)"
    unfolding full_duration_pattern_def
    by (simp only: den.simps(4,7) den.simps(5)[of True t "Seq _ _"]) blast
  then show ?thesis using minute_unit_check hour_unit_check by blast
qed

lemma scan_duration_unit:
  assumes "scan True full_duration_pattern 6 t 0 \<noteq> []"
  shows "re_search True minute_check 0 t \<noteq> None \<or> re_search True hour_check 0 t \<noteq> None"
proof -
  from assms obtain s e c where "(s, e, c) \<in> set (scan True full_duration_pattern 6 t 0)"
    by (cases "scan True full_duration_pattern 6 t 0") auto
  from scan_sound[OF this] have "den True t full_duration_pattern s e"
    by (auto dest: match_at_Some_den)
  then show ?thesis by (rule duration_den_unit)
qed

subsection \<open>The number captured by a duration match\<close>

lemma is_digit_runD: "is_digit_run r \<Longrightarrow> \<exists>lo hi. r = Rep Digit lo hi \<and> 0 < lo"
  by (cases r rule: is_digit_run.cases) auto

lemma run_length_le: "run_length k (drop p t) \<le> length t - p"
  unfolding run_length_def by (metis length_drop length_takeWhile_le)

lemma caps_inv:
  assumes "digit_groups (length c) r" "list_all (good_cap t) c"
    "(e, c') \<in> set (ends ic t r (p, c))"
  shows "length c' = length c \<and> list_all (good_cap t) c' \<and>
         (\<forall>i<length c. c ! i \<noteq> None \<longrightarrow> c' ! i \<noteq> None) \<and>
         (sets_group r \<longrightarrow> (\<exists>i<length c. c' ! i \<noteq> None))"
  using assms
proof (induction r arbitrary: p c e c')
  case (Lit s)
  then show ?case by (auto split: if_splits)
next
  case (Cls k)
  then show ?case by (auto split: if_splits)
next
  case (Rep k lo hi)
  then show ?case by (auto simp: Let_def)
next
  case (Seq r s)
  from Seq.prems(3) obtain m c1 where
    1: "(m, c1) \<in> set (ends ic t r (p, c))" and 2: "(e, c') \<in> set (ends ic t s (m, c1))"
    by auto
  from Seq.prems(1) have dr: "digit_groups (length c) r" and ds: "digit_groups (length c) s"
    by auto
  note A = Seq.IH(1)[OF dr Seq.prems(2) 1]
  from A ds have ds': "digit_groups (length c1) s" by simp
  from A have g1: "list_all (good_cap t) c1" by simp
  note B = Seq.IH(2)[OF ds' g1 2]
  from A B show ?case by auto
next
  case (Alt r s)
  from Alt.prems(3) have
    "(e, c') \<in> set (ends ic t r (p, c)) \<or> (e, c') \<in> set (ends ic t s (p, c))"
    by auto
  then show ?case
  proof
    assume 1: "(e, c') \<in> set (ends ic t r (p, c))"
    from Alt.prems(1) have "digit_groups (length c) r" by simp
    from Alt.IH(1)[OF this Alt.prems(2) 1] show ?thesis by auto
  next
    assume 1: "(e, c') \<in> set (ends ic t s (p, c))"
    from Alt.prems(1) have "digit_groups (length c) s" by simp
    from Alt.IH(2)[OF this Alt.prems(2) 1] show ?thesis by auto
  qed
next
  case (Opt r)
  from Opt.prems(3) have "(e, c') \<in> set (ends ic t r (p, c)) \<or> (e, c') = (p, c)"
    by auto
  then show ?case
  proof
    assume 1: "(e, c') \<in> set (ends ic t r (p, c))"
    from Opt.prems(1) have "digit_groups (length c) r" by simp
    from Opt.IH[OF this Opt.prems(2) 1] show ?thesis by auto
  next
    assume "(e, c') = (p, c)"
    with Opt.prems(2) show ?thesis by auto
  qed
next
  case (Group i r)
  from Group.prems(1) have i: "i < length c" and "is_digit_run r" by auto
  then obtain lo hi where r: "r = Rep Digit lo hi" and lo: "0 < lo"
    by (auto dest: is_digit_runD)
  from Group.prems(3) obtain j where j: "e = p + j" "lo \<le> j" "j \<le> run_length Digit (drop p t)"
    and c': "c' = c[i := Some (p, p + j)]"
    unfolding r by (auto simp: Let_def split: option.splits)
  from run_substr[OF j(3)] have dg: "list_all is_digit (substr t p (p + j))"
    by (simp add: in_class_eq)
  from j(2,3) lo run_length_le[of Digit p t] have b: "p < p + j" "p + j \<le> length t" by auto
  have "good_cap t (Some (p, p + j))" using dg b by simp
  then have "list_all (good_cap t) c'"
    unfolding c' using Group.prems(2) set_update_subset_insert[of c i "Some (p, p + j)"]
    by (auto simp: list_all_iff)
  moreover have "\<forall>k<length c. c ! k \<noteq> None \<longrightarrow> c' ! k \<noteq> None"
    unfolding c' using i by (simp add: nth_list_update)
  moreover have "\<exists>k<length c. c' ! k \<noteq> None"
    unfolding c' using i by (intro exI[of _ i]) simp
  ultimately show ?case unfolding c' by simp
next
  case WordB
  then show ?case by (auto split: if_splits)
next
  case (NotAhead r)
  then show ?case by (auto split: if_splits)
qed

lemma first_nonempty_digits:
  assumes "list_all (good_cap t) c" "\<exists>i<length c. c ! i \<noteq> None"
  shows "\<exists>n. first_nonempty (map (group_text t c) [0..<length c]) = Some n \<and> n \<noteq> [] \<and>
             list_all is_digit n"
proof -
  let ?xs = "map (group_text t c) [0..<length c]"
  have G: "group_text t c k \<noteq> [] \<Longrightarrow> list_all is_digit (group_text t c k)" for k
  proof -
    assume ne: "group_text t c k \<noteq> []"
    then have k: "k < length c" by (auto simp: group_text_def split: if_splits)
    with ne obtain p q where pq: "c ! k = Some (p, q)"
      by (cases "c ! k") (auto simp: group_text_def)
    from assms(1) k have "good_cap t (c ! k)" by (simp add: list_all_length)
    with pq k show ?thesis by (simp add: group_text_def)
  qed
  from assms(2) obtain i p q where i: "i < length c" "c ! i = Some (p, q)" by auto
  from assms(1) i have "good_cap t (Some (p, q))" by (metis list_all_length)
  then have "substr t p q \<noteq> []" by (auto simp: substr_def)
  with i have "group_text t c i \<noteq> []" by (simp add: group_text_def)
  with i(1) have "\<exists>x\<in>set ?xs. x \<noteq> []" by auto
  then obtain n where n: "first_nonempty ?xs = Some n"
    unfolding first_nonempty_def by (cases "List.find (\<lambda>m. m \<noteq> []) ?xs") (auto simp: find_None_iff)
  then have "n \<noteq> []" "n \<in> set ?xs"
    unfolding first_nonempty_def by (auto simp: find_Some_iff)
  with G n show ?thesis by auto
qed

lemma duration_pattern_groups:
  "digit_groups 6 full_duration_pattern" "sets_group full_duration_pattern"
  by (simp_all add: full_duration_pattern_def minute_units_def hour_units_def)

lemma duration_numbers:
  assumes "g \<in> set (findall_groups True full_duration_pattern 6 t)"
  shows "\<exists>n. first_nonempty g = Some n \<and> n \<noteq> [] \<and> list_all is_digit n"
proof -
  from assms obtain s e c where
    m: "(s, e, c) \<in> set (scan True full_duration_pattern 6 t 0)" and
    g: "g = map (group_text t c) [0..<6]"
    by (auto simp: findall_groups_def)
  from scan_sound[OF m] have
    "(e, c) \<in> set (ends True t full_duration_pattern (s, replicate 6 None))"
    by (auto simp: match_at_def split: list.splits)
  from caps_inv[OF _ _ this] duration_pattern_groups
  have "length c = 6" "list_all (good_cap t) c" "\<exists>i<length c. c ! i \<noteq> None"
    by (auto simp: list_all_iff)
  from first_nonempty_digits[OF this(2,3)] this(1) g show ?thesis by simp
qed

subsection \<open>The result of \<^verbatim>\<open>extract_entities\<close>\<close>

lemma scan_past: "length t < p \<Longrightarrow> scan ic r ng t p = []"
  by (simp add: scan.simps)

lemma scan_Nil:
  "match_at ic r ng [] 0 = None \<Longrightarrow> scan ic r ng [] 0 = []"
  by (subst scan.simps) (simp add: scan_past)

lemma empty_matches:
  "match_at True date_regex 0 [] 0 = None"
  "match_at True time_regex 0 [] 0 = None"
  "match_at True full_duration_pattern 6 [] 0 = None"
  "match_at False name_pattern 0 [] 0 = None"
  by code_simp+

lemma extract_entities_Inr:
  assumes "nlp text = Inr ents"
  shows "\<exists>m. extract_entities nlp now text = Inr m \<and>
     dom m = {''DATE'', ''TIME'', ''DURATION'', ''ATTENDEE''} \<and>
     m ''DATE'' = Some (map (parse_date now) (findall True date_regex text)) \<and>
     m ''TIME'' = Some (findall True time_regex text) \<and>
     m ''DURATION'' =
       Some (process_durations text (findall_groups True full_duration_pattern 6 text)) \<and>
     m ''ATTENDEE'' =
       Some (dict_fromkeys (if map fst (filter (\<lambda>ent. snd ent = ''PERSON'') ents) = []
                            then findall False name_pattern text
                            else map fst (filter (\<lambda>ent. snd ent = ''PERSON'') ents)))"
  using assms by (auto simp: extract_entities_def Let_def)

subsection \<open>Evaluations on concrete inputs\<close>

lemma eval_time: "findall True time_regex ''call at 10:30 AM'' = [''10:30 AM'']"
  by code_simp

lemma eval_repeated:
  "map (\<lambda>(s, e, c). parse_date 739924 (substr ''today 3pm 5 min, today 3pm 5 min'' s e))
       (scan True date_regex 0 ''today 3pm 5 min, today 3pm 5 min'' 0) =
     [''2026-11-04'', ''2026-11-04'']"
  "map (\<lambda>(s, e, c). substr ''today 3pm 5 min, today 3pm 5 min'' s e)
       (scan True time_regex 0 ''today 3pm 5 min, today 3pm 5 min'' 0) = [''3pm'', ''3pm'']"
  "map (\<lambda>(s, e, c).
          show_number (first_nonempty
            (map (group_text ''today 3pm 5 min, today 3pm 5 min'' c) [0..<6])) @
          (if re_search True minute_check 0 ''today 3pm 5 min, today 3pm 5 min'' \<noteq> None
           then '' mins'' else '' hours''))
       (scan True full_duration_pattern 6 ''today 3pm 5 min, today 3pm 5 min'' 0) =
     [''5 mins'', ''5 mins'']"
  by code_simp+

text \<open>
  Beyond ASCII: a no-break space (160) is white space for \<^verbatim>\<open>\s\<close>, and the letter
  233 is a word character for \<^verbatim>\<open>\b\<close> and \<^verbatim>\<open>(?!\w)\<close>.
\<close>

lemma eval_latin1:
  "parse_date 739924 (''next'' @ [CHR 0xA0] @ ''monday'') = ''2026-11-09''"
  "findall True time_regex (''10'' @ [CHR 0xA0] @ ''am'') = [''10'' @ [CHR 0xA0] @ ''am'']"
  "findall True time_regex (''caf'' @ [CHR 0xE9] @ ''3pm'') = []"
  "findall_groups True full_duration_pattern 6 (''1 hr, 5 min'' @ [CHR 0xE9]) =
     [[[], ''1'', [], [], [], []]]"
  "re_search True minute_check 0 (''1 hr, 5 min'' @ [CHR 0xE9]) = None"
  by code_simp+

lemma eval_lower_Min: "lower ''Min'' = ''min''"
  by code_simp

lemma eval_not_word_space: "\<not> is_word CHR '' ''"
  by code_simp

lemma eval_groups:
  "findall_groups True full_duration_pattern 6 ''2 hours then 15 Min break'' =
     [[[], ''2'', [], [], [], []], [''15'', [], [], [], [], []]]"
  by code_simp

subsection \<open>The pattern of \<^verbatim>\<open>next <weekday>\<close>\<close>

lemma takeWhile_prefix:
  "list_all P xs \<Longrightarrow> ys = [] \<or> \<not> P (hd ys) \<Longrightarrow> takeWhile P (xs @ ys) = xs"
  by (cases ys) (simp_all add: list_all_iff)

lemma lit_at_after:
  "t = pre @ u \<Longrightarrow> p = length pre \<Longrightarrow> lit_at False w t p = (take (length w) u = w)"
  by (simp add: lit_at_def)

lemma drop_after: "t = pre @ u \<Longrightarrow> p = length pre \<Longrightarrow> drop p t = u"
  by simp

lemma days_cases:
  "days wd = Some d \<Longrightarrow>
     (wd = ''monday'' \<and> d = 0) \<or> (wd = ''tuesday'' \<and> d = 1) \<or> (wd = ''wednesday'' \<and> d = 2) \<or>
     (wd = ''thursday'' \<and> d = 3) \<or> (wd = ''friday'' \<and> d = 4) \<or> (wd = ''saturday'' \<and> d = 5) \<or>
     (wd = ''sunday'' \<and> d = 6)"
  by (auto simp: days_def split: if_splits)

lemma days_range: "days wd = Some d \<Longrightarrow> 0 \<le> d \<and> d \<le> 6"
  by (drule days_cases) auto

lemma weekday_range: "0 \<le> weekday n \<and> weekday n \<le> 6"
  by (simp add: weekday_def)

lemma next_match:
  assumes t: "t = ''next'' @ ws @ wd @ rest" and ws: "ws \<noteq> []" "list_all is_space ws"
    and d: "days wd = Some d"
  shows "\<exists>e c. re_match False next_day_regex 1 t = Some (e, c) \<and> group_text t c 0 = wd"
proof -
  define P where "P = 4 + length ws"
  define G where "G = Group 0 (Alt (Lit ''monday'') (Alt (Lit ''tuesday'') (Alt (Lit ''wednesday'')
                (Alt (Lit ''thursday'') (Alt (Lit ''friday'') (Alt (Lit ''saturday'')
                (Lit ''sunday'')))))))"
  have nd: "next_day_regex = Seq (Lit ''next'') (Seq (Rep Space 1 None) G)"
    by (simp add: next_day_regex_def G_def)
  have t': "t = (''next'' @ ws) @ (wd @ rest)" using t by simp
  have P: "P = length (''next'' @ ws)" by (simp add: P_def)
  note W = days_cases[OF d]
  have nsp: "wd @ rest = [] \<or> \<not> is_space (hd (wd @ rest))"
    using W by (auto simp: is_space_def code_def)
  have R: "run_length Space (drop 4 t) = length ws"
  proof -
    have "drop 4 t = ws @ (wd @ rest)" by (simp add: t)
    moreover have "takeWhile is_space (ws @ (wd @ rest)) = ws"
      using ws(2) nsp by (rule takeWhile_prefix)
    ultimately show ?thesis by (simp add: run_length_def in_class_eq)
  qed
  have E1: "ends False t (Lit ''next'') (0, [None]) = [(4, [None])]"
    by (simp add: t lit_at_def)
  have E2: "ends False t (Rep Space 1 None) (4, [None]) =
              (P, [None]) # map (\<lambda>j. (4 + j, [None])) (rev [1..<length ws])"
    using ws(1) by (simp add: R Let_def P_def Suc_le_eq)
  have L: "lit_at False w t P = (take (length w) (wd @ rest) = w)" for w
    by (rule lit_at_after[OF t' P])
  have E3: "ends False t G (P, [None]) = [(P + length wd, [Some (P, P + length wd)])]"
    unfolding G_def using W by (elim disjE) (simp_all add: L)
  have H: "ends False t (Seq (Lit ''next'') (Seq (Rep Space 1 None) G)) (0, [None]) =
             (P + length wd, [Some (P, P + length wd)]) #
             concat (map (ends False t G) (map (\<lambda>j. (4 + j, [None])) (rev [1..<length ws])))"
    by (simp only: ends.simps(4) E1 E2 E3 list.map concat.simps append_Cons append_Nil
        append_Nil2)
  have R1: "replicate 1 (None :: (nat \<times> nat) option) = [None]" by simp
  have RM: "re_match False next_day_regex 1 t = Some (P + length wd, [Some (P, P + length wd)])"
    by (simp add: re_match_def match_at_def nd H R1 del: ends.simps One_nat_def)
  have "drop P t = wd @ rest" by (rule drop_after[OF t' P])
  then have "group_text t [Some (P, P + length wd)] 0 = wd"
    by (simp add: group_text_def substr_def)
  with RM show ?thesis by blast
qed

lemma parse_date_next:
  assumes "lower s = ''next'' @ ws @ wd @ rest" "ws \<noteq> []" "list_all is_space ws"
    and "days wd = Some d" "1 < now" "now + (d - weekday now + 7) \<le> MAXORDINAL"
  shows "parse_date now s = strftime_ymd (now + (d - weekday now + 7))"
proof -
  from next_match[OF assms(1-4)] obtain e c where
    RM: "re_match False next_day_regex 1 (lower s) = Some (e, c)"
        "group_text (lower s) c 0 = wd"
    by blast
  note dr = days_range[OF assms(4)] and wr = weekday_range[of now]
  have A: "date_add now 1 = Inr (now + 1)" "date_add now (- 1) = Inr (now - 1)"
    "date_add now (d - weekday now + 7) = Inr (now + (d - weekday now + 7))"
    using assms(5,6) dr wr by (simp_all add: date_add_def)
  show ?thesis
    by (simp add: parse_date_def parse_date_body_def Let_def A RM assms(4) del: One_nat_def)
qed

lemma spec_days_ahead_eq:
  assumes "0 \<le> d" "d \<le> 6" "0 \<le> w" "w \<le> 6"
  shows "spec_days_ahead d w = (if d \<le> w then d - w + 7 else d - w)"
proof -
  consider "d = w" | "d < w" | "w < d" by linarith
  then show ?thesis
  proof cases
    case 1
    then show ?thesis by (simp add: spec_days_ahead_def)
  next
    case 2
    have k: "(d - w + 7) mod 7 = d - w + 7"
      using 2 assms by (intro mod_pos_pos_trivial) auto
    have nz: "(d - w + 7 = 0) = False" using 2 assms by auto
    have "spec_days_ahead d w = d - w + 7"
      by (simp only: spec_days_ahead_def Let_def k nz if_False)
    with 2 show ?thesis by simp
  next
    case 3
    have k: "(d - w + 7) mod 7 = d - w"
      using 3 assms by (simp add: mod_pos_pos_trivial)
    have nz: "(d - w = 0) = False" using 3 by auto
    have "spec_days_ahead d w = d - w"
      by (simp only: spec_days_ahead_def Let_def k nz if_False)
    with 3 show ?thesis by simp
  qed
qed

lemma literals_no_next:
  "re_match False next_day_regex 1 ''today'' = None"
  "re_match False next_day_regex 1 ''tomorrow'' = None"
  "re_match False next_day_regex 1 ''yesterday'' = None"
  by code_simp+

lemma eval_lower_next: "lower ''Next  Friday'' = ''next'' @ ''  '' @ ''friday'' @ []"
  by code_simp

lemma eval_space: "is_space CHR '' ''"
  by code_simp

lemma eval_days: "days ''friday'' = Some 4" "days ''monday'' = Some 0"
  by (simp_all add: days_def)

lemma eval_weekday: "weekday 739924 = 2" "weekday 739921 = 6"
  by (simp_all add: weekday_def)

lemma eval_lower_next_monday: "lower ''next monday'' = ''next'' @ '' '' @ ''monday'' @ []"
  by code_simp

lemma eval_lower_literals:
  "lower ''Today'' = ''today''" "lower ''TOMORROW'' = ''tomorrow''"
  "lower ''yesterday'' = ''yesterday''"
  by code_simp+

lemma eval_strftime:
  "strftime_ymd 739924 = ''2026-11-04''" "strftime_ymd 739925 = ''2026-11-05''"
  "strftime_ymd 739923 = ''2026-11-03''"
  by code_simp+

lemma eval_iso: "is_iso_date ''2026-11-05''"
  by code_simp

lemma eval_no_next: "re_match False next_day_regex 1 ''friday'' = None"
  by code_simp

lemma eval_lower_friday: "lower ''Friday'' = ''friday''"
  by code_simp

lemma eval_overflow: "parse_date_body 3652059 ''today'' = Inl OverflowError"
  by code_simp

section \<open>The claims\<close>

subsection \<open>C1: the offset of \<^verbatim>\<open>next <weekday>\<close>\<close>

text \<open>
  Claim C1, as stated, fails. On Monday 2026-11-02 (ordinal 739922) the specification's
  formula gives the offset 1 for \<^verbatim>\<open>next tuesday\<close>, but \<^verbatim>\<open>parse_date\<close>
  returns the date 8 days ahead.
\<close>

theorem next_weekday_counterexample:
  "weekday 739922 = 0 \<and> days ''tuesday'' = Some 1 \<and> spec_days_ahead 1 (weekday 739922) = 1 \<and>
   parse_date 739922 ''next tuesday'' = strftime_ymd (739922 + 8) \<and>
   parse_date 739922 ''next tuesday'' \<noteq> strftime_ymd (739922 + spec_days_ahead 1 (weekday 739922))"
  by code_simp

text \<open>
  Claim C1, amended. For every input that in lower case is \<^verbatim>\<open>next\<close>, white space
  and a weekday name (anything may follow), and a clock whose date and the resulting
  date exist, \<^verbatim>\<open>parse_date\<close> returns the current date plus
  \<^verbatim>\<open>target_weekday_index - current_weekday_index + 7\<close> with no modulo. This offset
  is the one of the specification's formula exactly when the target index is not after
  the current one; in particular on the target weekday itself it is 7.
\<close>

theorem next_weekday_offset:
  assumes "lower s = ''next'' @ ws @ wd @ rest" "ws \<noteq> []" "list_all is_space ws"
    and "days wd = Some d" "1 < now" "now + (d - weekday now + 7) \<le> MAXORDINAL"
  shows "parse_date now s = strftime_ymd (now + (d - weekday now + 7)) \<and>
         (d - weekday now + 7 = spec_days_ahead d (weekday now)) = (d \<le> weekday now) \<and>
         (d = weekday now \<longrightarrow> parse_date now s = strftime_ymd (now + 7))"
proof -
  note dr = days_range[OF assms(4)] and wr = weekday_range[of now]
  have P: "parse_date now s = strftime_ymd (now + (d - weekday now + 7))"
    using assms by (rule parse_date_next)
  have "(d - weekday now + 7 = spec_days_ahead d (weekday now)) = (d \<le> weekday now)"
    using dr wr by (simp add: spec_days_ahead_eq)
  with P show ?thesis by auto
qed

text \<open>On Wednesday 2026-11-04, \<^verbatim>\<open>Next  Friday\<close> is 9 days ahead.\<close>

theorem next_weekday_offset_witness:
  "parse_date 739924 ''Next  Friday'' = strftime_ymd (739924 + 9)"
  using next_weekday_offset[of "''Next  Friday''" "''  ''" "''friday''" "[]" 4 739924]
  by (simp add: eval_lower_next[simplified] eval_space eval_days eval_weekday MAXORDINAL_def)

subsection \<open>C2: the range of the offset\<close>

text \<open>
  Claim C2, as stated, fails. On Sunday 2026-11-01 (ordinal 739921) the offset computed
  for \<^verbatim>\<open>next monday\<close> is \<open>0 - 6 + 7 = 1\<close>: the result is 1 day ahead, not 8, and
  the offset is less than 7.
\<close>

theorem next_monday_on_sunday_counterexample:
  "weekday 739921 = 6 \<and> days ''monday'' = Some 0 \<and>
   parse_date 739921 ''next monday'' = strftime_ymd (739921 + 1) \<and>
   parse_date 739921 ''next monday'' \<noteq> strftime_ymd (739921 + 8)"
  by code_simp

text \<open>
  Claim C2, amended. For every current weekday and every target weekday the offset
  computed by \<^verbatim>\<open>parse_date\<close> for \<^verbatim>\<open>next <weekday>\<close> lies between 1 and 13; it
  is less than 7 exactly when the target weekday comes before the current one in the
  week that starts on Monday.
\<close>

theorem next_weekday_offset_range:
  assumes "lower s = ''next'' @ ws @ wd @ rest" "ws \<noteq> []" "list_all is_space ws"
    and "days wd = Some d" "1 < now" "now + (d - weekday now + 7) \<le> MAXORDINAL"
  shows "\<exists>k. parse_date now s = strftime_ymd (now + k) \<and> k = d - weekday now + 7 \<and>
             1 \<le> k \<and> k \<le> 13 \<and> (k < 7) = (d < weekday now)"
proof -
  note dr = days_range[OF assms(4)] and wr = weekday_range[of now]
  have "parse_date now s = strftime_ymd (now + (d - weekday now + 7))"
    using assms by (rule parse_date_next)
  with dr wr show ?thesis by auto
qed

text \<open>On Sunday 2026-11-01, \<^verbatim>\<open>next monday\<close> is 1 day ahead.\<close>

theorem next_weekday_offset_range_witness:
  "\<exists>k. parse_date 739921 ''next monday'' = strftime_ymd (739921 + k) \<and> k = 1"
  using next_weekday_offset_range[of "''next monday''" "'' ''" "''monday''" "[]" 0 739921]
  by (simp add: eval_lower_next_monday[simplified] eval_space eval_days eval_weekday
      MAXORDINAL_def)

subsection \<open>C3: the four keys\<close>

text \<open>
  Claim C3. Whenever the recogniser returns, \<^verbatim>\<open>extract_entities\<close> returns a mapping
  whose keys are exactly DATE, TIME, DURATION and ATTENDEE. For the empty text, on which
  the recogniser finds nothing, all four lists are empty.
\<close>

theorem extract_entities_four_keys:
  assumes "nlp text = Inr ents"
  shows "\<exists>m. extract_entities nlp now text = Inr m \<and>
           dom m = {''DATE'', ''TIME'', ''DURATION'', ''ATTENDEE''} \<and>
           (text = [] \<and> ents = [] \<longrightarrow>
              m ''DATE'' = Some [] \<and> m ''TIME'' = Some [] \<and> m ''DURATION'' = Some [] \<and>
              m ''ATTENDEE'' = Some [])"
proof -
  from extract_entities_Inr[of nlp "text" ents now, OF assms] obtain m where
    m: "extract_entities nlp now text = Inr m"
       "dom m = {''DATE'', ''TIME'', ''DURATION'', ''ATTENDEE''}"
       "m ''DATE'' = Some (map (parse_date now) (findall True date_regex text))"
       "m ''TIME'' = Some (findall True time_regex text)"
       "m ''DURATION'' =
          Some (process_durations text (findall_groups True full_duration_pattern 6 text))"
       "m ''ATTENDEE'' =
          Some (dict_fromkeys (if map fst (filter (\<lambda>ent. snd ent = ''PERSON'') ents) = []
                            then findall False name_pattern text
                            else map fst (filter (\<lambda>ent. snd ent = ''PERSON'') ents)))"
    by blast
  have "text = [] \<and> ents = [] \<longrightarrow>
              m ''DATE'' = Some [] \<and> m ''TIME'' = Some [] \<and> m ''DURATION'' = Some [] \<and>
              m ''ATTENDEE'' = Some []"
    using m(3-6)
    by (simp add: findall_def findall_groups_def scan_Nil empty_matches dict_fromkeys_Nil)
  with m(1,2) show ?thesis by blast
qed

text \<open>The empty text.\<close>

theorem extract_entities_four_keys_witness:
  "\<exists>m. extract_entities (\<lambda>t. Inr []) 739924 [] = Inr m \<and>
       dom m = {''DATE'', ''TIME'', ''DURATION'', ''ATTENDEE''} \<and>
       m ''DATE'' = Some [] \<and> m ''TIME'' = Some [] \<and> m ''DURATION'' = Some [] \<and>
       m ''ATTENDEE'' = Some []"
  using extract_entities_four_keys[of "\<lambda>t. Inr []" "[]" "[]" 739924] by simp

subsection \<open>C4: minutes take priority\<close>

text \<open>
  Claim C4, as stated, fails. The text \<^verbatim>\<open>2 hours 30 minutes\<close> contains a minute
  word and an hour word, but the plural \<^verbatim>\<open>minutes\<close> is neither in the duration
  patterns nor in the minutes check, so the only duration match is \<^verbatim>\<open>2 hours\<close>
  and it is labelled with hours.
\<close>

theorem plural_minutes_counterexample:
  "findall_groups True full_duration_pattern 6 ''2 hours 30 minutes'' =
     [[[], ''2'', [], [], [], []]] \<and>
   re_search True minute_check 0 ''2 hours 30 minutes'' = None \<and>
   (case extract_entities (\<lambda>t. Inr []) 739924 ''2 hours 30 minutes'' of
      Inl x \<Rightarrow> None | Inr m \<Rightarrow> m ''DURATION'') = Some [''2 hours''] \<and>
   (case extract_entities (\<lambda>t. Inr []) 739924 ''2 hours 30 minutes'' of
      Inl x \<Rightarrow> None | Inr m \<Rightarrow> m ''DURATION'') \<noteq> Some [''2 mins'']"
  by code_simp

text \<open>
  Claim C4, amended. When the text contains one of the words \<^verbatim>\<open>minute\<close>, \<^verbatim>\<open>min\<close>,
  \<^verbatim>\<open>mins\<close>, \<^verbatim>\<open>m\<close> (in any letter case) that is not followed by a word
  character, every match of the duration pattern is labelled with \<^verbatim>\<open>mins\<close>,
  whether or not the text also contains an hour word: the DURATION list has one entry
  \<^verbatim>\<open><n> mins\<close> for every match, in the order of the matches, where \<open>n\<close> is
  the non-empty string of digits that the match captured.
\<close>

theorem minutes_take_priority:
  assumes "nlp text = Inr ents"
    and "text = pre @ w @ post"
    and "lower w = ''minute'' \<or> lower w = ''min'' \<or> lower w = ''mins'' \<or> lower w = ''m''"
    and "post = [] \<or> \<not> is_word (hd post)"
  shows "\<exists>m. extract_entities nlp now text = Inr m \<and>
           m ''DURATION'' =
             Some (map (\<lambda>g. show_number (first_nonempty g) @ '' mins'')
                       (findall_groups True full_duration_pattern 6 text)) \<and>
           (\<forall>g \<in> set (findall_groups True full_duration_pattern 6 text).
              \<exists>n. first_nonempty g = Some n \<and> show_number (first_nonempty g) = n \<and>
                  n \<noteq> [] \<and> list_all is_digit n)"
proof -
  from extract_entities_Inr[of nlp "text" ents now, OF assms(1)] obtain m where
    m: "extract_entities nlp now text = Inr m"
       "m ''DURATION'' =
          Some (process_durations text (findall_groups True full_duration_pattern 6 text))"
    by blast
  have "\<exists>n. first_nonempty g = Some n \<and> show_number (first_nonempty g) = n \<and>
            n \<noteq> [] \<and> list_all is_digit n"
    if "g \<in> set (findall_groups True full_duration_pattern 6 text)" for g
  proof -
    from duration_numbers[OF that] obtain n where
      "first_nonempty g = Some n" "n \<noteq> []" "list_all is_digit n"
      by blast
    then show ?thesis by (simp add: show_number_def)
  qed
  moreover have "m ''DURATION'' =
             Some (map (\<lambda>g. show_number (first_nonempty g) @ '' mins'')
                       (findall_groups True full_duration_pattern 6 text))"
    using minute_check_found[OF assms(2-4)] m(2) by (simp add: process_durations_eq)
  ultimately show ?thesis using m(1) by blast
qed

text \<open>A text with an hour phrase and a minute phrase: both numbers are labelled as minutes.\<close>

theorem minutes_take_priority_witness:
  "\<exists>m. extract_entities (\<lambda>t. Inr []) 739924 ''2 hours then 15 Min break'' = Inr m \<and>
       m ''DURATION'' = Some [''2 mins'', ''15 mins'']"
  using minutes_take_priority[of "\<lambda>t. Inr []" "''2 hours then 15 Min break''" "[]"
      "''2 hours then 15 ''" "''Min''" "'' break''" 739924]
  by (auto simp: eval_groups eval_lower_Min eval_not_word_space first_nonempty_def
      show_number_def)

subsection \<open>C5: the fallback pattern for names\<close>

text \<open>
  Claim C5 does not hold of the code. The pattern
  \<^verbatim>\<open>\b[A-Z][a-z]+ (?:[A-Z][a-z]+)?\b\<close> has its space outside the optional group,
  so a capitalized word is matched only together with the space that follows it: a lone
  capitalized word at the end of the text is not matched at all, and one in the middle
  is reported with a trailing space.
\<close>

theorem lone_capitalized_word_not_matched:
  "findall False name_pattern ''Jane'' = [] \<and>
   findall False name_pattern ''call Jane'' = [] \<and>
   findall False name_pattern ''Jane is here'' = [''Jane ''] \<and>
   findall False name_pattern ''Jane Doe is here'' = [''Jane Doe''] \<and>
   (case extract_entities (\<lambda>t. Inr []) 739924 ''call Jane'' of
      Inl x \<Rightarrow> None | Inr m \<Rightarrow> m ''ATTENDEE'') = Some []"
  by code_simp

subsection \<open>C6: today, tomorrow, yesterday\<close>

text \<open>
  Claim C6. For a clock whose date has a day before and a day after, and an input that
  in lower case is \<^verbatim>\<open>today\<close>, \<^verbatim>\<open>tomorrow\<close> or \<^verbatim>\<open>yesterday\<close>,
  \<^verbatim>\<open>parse_date\<close> returns the current date plus 0, 1 or -1 days, formatted as
  \<^verbatim>\<open>YYYY-MM-DD\<close>.
\<close>

theorem relative_literals:
  assumes "1 < now" "now < MAXORDINAL"
  shows "(lower s = ''today'' \<longrightarrow> parse_date now s = strftime_ymd now) \<and>
         (lower s = ''tomorrow'' \<longrightarrow> parse_date now s = strftime_ymd (now + 1)) \<and>
         (lower s = ''yesterday'' \<longrightarrow> parse_date now s = strftime_ymd (now - 1)) \<and>
         (lower s = ''today'' \<or> lower s = ''tomorrow'' \<or> lower s = ''yesterday'' \<longrightarrow>
            is_iso_date (parse_date now s))"
proof -
  have A: "date_add now 1 = Inr (now + 1)" "date_add now (- 1) = Inr (now - 1)"
    using assms by (simp_all add: date_add_def)
  have 1: "parse_date now s = strftime_ymd now" if "lower s = ''today''"
    using that
    by (simp add: parse_date_def parse_date_body_def Let_def A literals_no_next
        del: One_nat_def)
  have 2: "parse_date now s = strftime_ymd (now + 1)" if "lower s = ''tomorrow''"
    using that
    by (simp add: parse_date_def parse_date_body_def Let_def A literals_no_next
        del: One_nat_def)
  have 3: "parse_date now s = strftime_ymd (now - 1)" if "lower s = ''yesterday''"
    using that
    by (simp add: parse_date_def parse_date_body_def Let_def A literals_no_next
        del: One_nat_def)
  from 1 2 3 show ?thesis by (auto simp: strftime_ymd_shape)
qed

text \<open>The three literals on 2026-11-04, in different letter cases.\<close>

theorem relative_literals_witness:
  "parse_date 739924 ''Today'' = ''2026-11-04'' \<and>
   parse_date 739924 ''TOMORROW'' = ''2026-11-05'' \<and>
   parse_date 739924 ''yesterday'' = ''2026-11-03'' \<and>
   is_iso_date (parse_date 739924 ''TOMORROW'')"
  using relative_literals[of 739924 "''Today''"] relative_literals[of 739924 "''TOMORROW''"]
    relative_literals[of 739924 "''yesterday''"]
  by (simp add: eval_lower_literals eval_strftime eval_iso MAXORDINAL_def)

subsection \<open>C7: everything else passes through\<close>

text \<open>
  Claim C7. An input that does not match the pattern of \<^verbatim>\<open>next <weekday>\<close> and
  is none of the three literals is returned unchanged, and so is every input on which the
  body of \<^verbatim>\<open>parse_date\<close> raises. \<^verbatim>\<open>parse_date\<close> itself never raises: it is a
  total function into strings.
\<close>

theorem parse_date_passthrough:
  "(re_match False next_day_regex 1 (lower s) = None \<and> lower s \<noteq> ''today'' \<and>
    lower s \<noteq> ''tomorrow'' \<and> lower s \<noteq> ''yesterday'' \<longrightarrow> parse_date now s = s) \<and>
   (parse_date_body now s = Inl x \<longrightarrow> parse_date now s = s)"
proof -
  have "parse_date now s = s"
    if "re_match False next_day_regex 1 (lower s) = None" "lower s \<noteq> ''today''"
      "lower s \<noteq> ''tomorrow''" "lower s \<noteq> ''yesterday''"
    using that by (auto simp: parse_date_def parse_date_body_def Let_def split: sum.splits)
  moreover have "parse_date_body now s = Inl x \<longrightarrow> parse_date now s = s"
    by (simp add: parse_date_def)
  ultimately show ?thesis by blast
qed

text \<open>
  An input without a date, and the literal \<^verbatim>\<open>today\<close> on 9999-12-31, where the
  day after today does not exist.
\<close>

theorem parse_date_passthrough_witness:
  "parse_date 739924 ''Friday'' = ''Friday'' \<and> parse_date 3652059 ''today'' = ''today''"
  using parse_date_passthrough[of "''Friday''" 739924 OverflowError]
    parse_date_passthrough[of "''today''" 3652059 OverflowError]
  by (simp add: eval_no_next eval_lower_friday eval_overflow del: One_nat_def)

subsection \<open>C8: attendees without duplicates\<close>

text \<open>
  Claim C8. The ATTENDEE list has no duplicates and the same elements as the list of
  candidates (the PERSON entities, or the matches of the fallback pattern when there are
  none): it consists of the candidates at the positions of their first occurrences, in
  the original order.
\<close>

theorem attendee_first_occurrences:
  assumes "nlp text = Inr ents"
    and "persons = map fst (filter (\<lambda>ent. snd ent = ''PERSON'') ents)"
    and "cands = (if persons = [] then findall False name_pattern text else persons)"
  shows "\<exists>m as. extract_entities nlp now text = Inr m \<and> m ''ATTENDEE'' = Some as \<and>
           distinct as \<and> set as = set cands \<and>
           as = map (\<lambda>i. cands ! i)
                  (filter (\<lambda>i. cands ! i \<notin> set (take i cands)) [0..<length cands])"
proof -
  from extract_entities_Inr[of nlp "text" ents now, OF assms(1)] obtain m where
    m: "extract_entities nlp now text = Inr m" "m ''ATTENDEE'' = Some (dict_fromkeys cands)"
    unfolding assms(2,3) by blast
  have "distinct (dict_fromkeys cands)" "set (dict_fromkeys cands) = set cands"
    by (rule distinct_dict_fromkeys, rule set_dict_fromkeys)
  with m dict_fromkeys_first[of cands] show ?thesis by blast
qed

text \<open>A recogniser that reports \<^verbatim>\<open>Jane Doe\<close> twice.\<close>

theorem attendee_first_occurrences_witness:
  "\<exists>m. extract_entities
          (\<lambda>t. Inr [(''Jane Doe'', ''PERSON''), (''Friday'', ''DATE''), (''Bob'', ''PERSON''),
                     (''Jane Doe'', ''PERSON'')])
          739924 ''Jane Doe meets Bob on Friday, Jane Doe presents'' = Inr m \<and>
       m ''ATTENDEE'' = Some [''Jane Doe'', ''Bob'']"
  using attendee_first_occurrences[of
      "\<lambda>t. Inr [(''Jane Doe'', ''PERSON''), (''Friday'', ''DATE''), (''Bob'', ''PERSON''),
                 (''Jane Doe'', ''PERSON'')]"
      "''Jane Doe meets Bob on Friday, Jane Doe presents''"
      "[(''Jane Doe'', ''PERSON''), (''Friday'', ''DATE''), (''Bob'', ''PERSON''),
        (''Jane Doe'', ''PERSON'')]"
      "[''Jane Doe'', ''Bob'', ''Jane Doe'']" "[''Jane Doe'', ''Bob'', ''Jane Doe'']" 739924]
  by (auto simp: upt_rec_numeral)

subsection \<open>C9: times are literal substrings\<close>

text \<open>
  Claim C9. The TIME list is the list of matches of the time pattern, and each entry is
  a substring of the input made of one or two digits, optionally a colon and two digits,
  optional white space and \<^verbatim>\<open>am\<close> or \<^verbatim>\<open>pm\<close> in any letter case. Nothing is
  rewritten.
\<close>

theorem time_entries_literal:
  assumes "nlp text = Inr ents"
  shows "\<exists>m. extract_entities nlp now text = Inr m \<and>
           m ''TIME'' = Some (findall True time_regex text) \<and>
           (\<forall>x \<in> set (findall True time_regex text).
              \<exists>pre post h mm ws mer. text = pre @ x @ post \<and> x = h @ mm @ ws @ mer \<and>
                (length h = 1 \<or> length h = 2) \<and> list_all is_digit h \<and>
                (mm = [] \<or> (\<exists>a b. mm = [CHR '':'', a, b] \<and> is_digit a \<and> is_digit b)) \<and>
                list_all is_space ws \<and> (lower mer = ''am'' \<or> lower mer = ''pm''))"
proof -
  from extract_entities_Inr[of nlp "text" ents now, OF assms] obtain m where
    m: "extract_entities nlp now text = Inr m" "m ''TIME'' = Some (findall True time_regex text)"
    by blast
  have "\<exists>pre post h mm ws mer. text = pre @ x @ post \<and> x = h @ mm @ ws @ mer \<and>
                (length h = 1 \<or> length h = 2) \<and> list_all is_digit h \<and>
                (mm = [] \<or> (\<exists>a b. mm = [CHR '':'', a, b] \<and> is_digit a \<and> is_digit b)) \<and>
                list_all is_space ws \<and> (lower mer = ''am'' \<or> lower mer = ''pm'')"
    if "x \<in> set (findall True time_regex text)" for x
  proof -
    from findall_member[OF that] obtain s e where
      se: "s \<le> e" "e \<le> length text" "x = substr text s e" "den True text time_regex s e"
      by blast
    from substr_in_text[OF se(1,2)] have "text = take s text @ x @ drop e text"
      unfolding se(3) .
    moreover from time_den_shape[OF se(4)] obtain h mm ws mer where
      "x = h @ mm @ ws @ mer" "length h = 1 \<or> length h = 2" "list_all is_digit h"
      "mm = [] \<or> (\<exists>a b. mm = [CHR '':'', a, b] \<and> is_digit a \<and> is_digit b)"
      "list_all is_space ws" "lower mer = ''am'' \<or> lower mer = ''pm''"
      unfolding se(3) by blast
    ultimately show ?thesis by blast
  qed
  with m show ?thesis by blast
qed

text \<open>A time with minutes and an upper-case meridiem.\<close>

theorem time_entries_literal_witness:
  "\<exists>m. extract_entities (\<lambda>t. Inr []) 739924 ''call at 10:30 AM'' = Inr m \<and>
       m ''TIME'' = Some [''10:30 AM''] \<and>
       (\<exists>pre post h mm ws mer. ''call at 10:30 AM'' = pre @ ''10:30 AM'' @ post \<and>
          ''10:30 AM'' = h @ mm @ ws @ mer \<and> list_all is_digit h \<and> list_all is_space ws \<and>
          (lower mer = ''am'' \<or> lower mer = ''pm''))"
  using time_entries_literal[of "\<lambda>t. Inr []" "''call at 10:30 AM''" "[]" 739924]
  unfolding eval_time by (simp only: list.set ball_simps) blast

subsection \<open>C10: dates, times and durations keep repeated matches\<close>

text \<open>
  Claim C10. The DATE, TIME and DURATION lists have one entry for every match that the
  scan of the pattern finds, in the order of the scan, which goes from left to right over
  matches that do not overlap; no entry is dropped, so a phrase that occurs twice appears
  twice.
\<close>

theorem repeated_matches_kept:
  assumes "nlp text = Inr ents"
  shows "\<exists>m. extract_entities nlp now text = Inr m \<and>
     m ''DATE'' = Some (map (\<lambda>(s, e, c). parse_date now (substr text s e))
                        (scan True date_regex 0 text 0)) \<and>
     m ''TIME'' = Some (map (\<lambda>(s, e, c). substr text s e) (scan True time_regex 0 text 0)) \<and>
     m ''DURATION'' =
       Some (map (\<lambda>(s, e, c).
                   show_number (first_nonempty (map (group_text text c) [0..<6])) @
                   (if re_search True minute_check 0 text \<noteq> None then '' mins'' else '' hours''))
                 (scan True full_duration_pattern 6 text 0)) \<and>
     (\<forall>r ng. sorted_wrt (\<lambda>a b. fst a < fst b \<and> fst (snd a) \<le> fst b) (scan True r ng text 0))"
proof -
  from extract_entities_Inr[of nlp "text" ents now, OF assms] obtain m where
    m: "extract_entities nlp now text = Inr m"
       "m ''DATE'' = Some (map (parse_date now) (findall True date_regex text))"
       "m ''TIME'' = Some (findall True time_regex text)"
       "m ''DURATION'' =
          Some (process_durations text (findall_groups True full_duration_pattern 6 text))"
    by blast
  let ?sc = "scan True full_duration_pattern 6 text 0"
  let ?f = "map (\<lambda>(s, e, c).
                   show_number (first_nonempty (map (group_text text c) [0..<6])) @
                   (if re_search True minute_check 0 text \<noteq> None then '' mins'' else '' hours''))
                ?sc"
  have D: "process_durations text (findall_groups True full_duration_pattern 6 text) = ?f"
  proof (cases "?sc = []")
    case True
    then show ?thesis by (simp add: findall_groups_def)
  next
    case False
    from scan_duration_unit[OF this] show ?thesis
      by (auto simp: process_durations_eq findall_groups_def case_prod_beta comp_def)
  qed
  have "m ''DATE'' = Some (map (\<lambda>(s, e, c). parse_date now (substr text s e))
                        (scan True date_regex 0 text 0))"
    using m(2) by (simp add: findall_def case_prod_beta comp_def)
  moreover have "m ''TIME'' = Some (map (\<lambda>(s, e, c). substr text s e) (scan True time_regex 0 text 0))"
    using m(3) by (simp add: findall_def)
  moreover have "m ''DURATION'' = Some ?f"
    using m(4) D by simp
  ultimately show ?thesis using m(1) scan_sorted by blast
qed

text \<open>A text in which the date, the time and the duration occur twice.\<close>

theorem repeated_matches_kept_witness:
  "\<exists>m. extract_entities (\<lambda>t. Inr []) 739924 ''today 3pm 5 min, today 3pm 5 min'' = Inr m \<and>
       m ''DATE'' = Some [''2026-11-04'', ''2026-11-04''] \<and>
       m ''TIME'' = Some [''3pm'', ''3pm''] \<and>
       m ''DURATION'' = Some [''5 mins'', ''5 mins'']"
  using repeated_matches_kept[of "\<lambda>t. Inr []" "''today 3pm 5 min, today 3pm 5 min''" "[]" 739924,
      unfolded eval_repeated]
  by blast

end
